theory Spec2Isabelle
  imports Complex_Main "HOL-Library.Sublist" "HOL-Library.Multiset"
    "HOL-Library.Char_ord" "HOL-Library.List_Lexorder"
begin

section \<open>Documents\<close>

text \<open>
  \<^verbatim>\<open>convert_fixtures.py\<close> works on the values that \<^verbatim>\<open>json.load\<close> and
  \<^verbatim>\<open>yaml.safe_load\<close> return: \<^verbatim>\<open>None\<close>, booleans, integers, floats, strings,
  lists and dicts with string keys. A dict is an association list in insertion order
  (the order Python iterates and serialises it in). Floats are modelled by their real
  value; the program only ever tests them for being zero. A string is a list of
  characters.
\<close>

datatype json =
    JNull
  | JBool bool
  | JInt int
  | JFloat real
  | JStr string
  | JList "json list"
  | JDict "(string \<times> json) list"

type_synonym dict = "(string \<times> json) list"

text \<open>
  The exceptions of a run. \<^verbatim>\<open>AttributeError\<close> and \<^verbatim>\<open>TypeError\<close> are raised by the
  conversion itself, \<^verbatim>\<open>RecursionError\<close> by the interpreter when calls nest deeper than
  its limit. \<open>ReadError\<close> stands for whatever opening, decoding or parsing a file
  raises, \<open>WriteError\<close> for whatever opening it for writing or dumping into it raises.
\<close>

datatype error = AttributeError | TypeError | RecursionError | ReadError | WriteError

text \<open>\<^verbatim>\<open>key in d\<close>, \<^verbatim>\<open>d.get(key, default)\<close> and \<^verbatim>\<open>d[key] = value\<close>
  (an existing key keeps its position, a new key goes last), for dicts with values of
  any kind.\<close>

definition has_key :: "(string \<times> 'v) list \<Rightarrow> string \<Rightarrow> bool" where
  "has_key d k = (k \<in> set (map fst d))"

definition dict_get :: "(string \<times> 'v) list \<Rightarrow> string \<Rightarrow> 'v \<Rightarrow> 'v" where
  "dict_get d k dflt = (case map_of d k of Some v \<Rightarrow> v | None \<Rightarrow> dflt)"

fun dict_set :: "(string \<times> 'v) list \<Rightarrow> string \<Rightarrow> 'v \<Rightarrow> (string \<times> 'v) list" where
  "dict_set [] k v = [(k, v)]"
| "dict_set ((k', v') # d) k v =
     (if k' = k then (k, v) # d else (k', v') # dict_set d k v)"

text \<open>Python's truth value of a document value (\<^verbatim>\<open>if not x\<close>).\<close>

fun truthy :: "json \<Rightarrow> bool" where
  "truthy JNull = False"
| "truthy (JBool b) = b"
| "truthy (JInt i) = (i \<noteq> 0)"
| "truthy (JFloat r) = (r \<noteq> 0)"
| "truthy (JStr s) = (s \<noteq> [])"
| "truthy (JList xs) = (xs \<noteq> [])"
| "truthy (JDict d) = (d \<noteq> [])"

section \<open>Reference Rewriter\<close>

text \<open>
  \<^verbatim>\<open>str.replace(old, new)\<close>: scanning from the left, every occurrence of \<open>old\<close> that
  does not overlap an earlier one is replaced by \<open>new\<close>. With an empty \<open>old\<close>, \<open>new\<close>
  is put before every character and at the end.
\<close>

function replace :: "'a list \<Rightarrow> 'a list \<Rightarrow> 'a list \<Rightarrow> 'a list" where
  "replace old new s =
     (if old = [] then new @ concat (map (\<lambda>c. c # new) s)
      else if s = [] then []
      else if prefix old s then new @ replace old new (drop (length old) s)
      else hd s # replace old new (tl s))"
  by pat_completeness auto
termination
  by (relation "measure (\<lambda>(old, new, s). length s)") auto

declare replace.simps [simp del]

text \<open>Two strings are apart when neither is a prefix of the other.\<close>

definition apart :: "'a list \<Rightarrow> 'a list \<Rightarrow> bool" where
  "apart x y = (\<not> prefix x y \<and> \<not> prefix y x)"

text \<open>
  \<^verbatim>\<open>convert_ref\<close>: a falsy argument is returned as it is; otherwise the three
  \<^verbatim>\<open>replace\<close> calls run in the order of the source. Only a string has a
  \<^verbatim>\<open>replace\<close> method: any other truthy value raises \<^verbatim>\<open>AttributeError\<close>.
\<close>

definition convert_ref :: "json \<Rightarrow> error + json" where
  "convert_ref ref_string =
     (if \<not> truthy ref_string then Inr ref_string
      else case ref_string of
        JStr s \<Rightarrow>
          Inr (JStr (replace ''#/responses/'' ''#/components/responses/''
                 (replace ''#/parameters/'' ''#/components/parameters/''
                   (replace ''#/definitions/'' ''#/components/schemas/'' s))))
      | _ \<Rightarrow> Inl AttributeError)"

text \<open>
  For stating what \<^verbatim>\<open>convert_ref\<close> does to a string: the text it returns, the
  table of the three substitutions, and the application of a list of substitutions one
  after the other.
\<close>

definition rewrite_text :: "string \<Rightarrow> string" where
  "rewrite_text s =
     replace ''#/responses/'' ''#/components/responses/''
       (replace ''#/parameters/'' ''#/components/parameters/''
         (replace ''#/definitions/'' ''#/components/schemas/'' s))"

definition legacy_rules :: "(string \<times> string) list" where
  "legacy_rules =
     [(''#/definitions/'', ''#/components/schemas/''),
      (''#/parameters/'', ''#/components/parameters/''),
      (''#/responses/'', ''#/components/responses/'')]"

definition apply_rules :: "(string \<times> string) list \<Rightarrow> string \<Rightarrow> string" where
  "apply_rules rules s = fold (\<lambda>(old, new). replace old new) rules s"

definition legacy_prefixes :: "string list" where
  "legacy_prefixes = [''#/definitions/'', ''#/parameters/'', ''#/responses/'']"

lemma size_dict_set:
  "map_of d k = Some r \<Longrightarrow> size v \<le> size r \<Longrightarrow>
   size_list (size_prod (\<lambda>_. 0) size) (dict_set d k v)
     \<le> size_list (size_prod (\<lambda>_. 0) size) d"
  by (induction d) (auto split: if_splits)

lemma size_convert_ref: "convert_ref r = Inr r' \<Longrightarrow> size r' \<le> size r"
  by (cases r) (auto simp: convert_ref_def split: if_splits)

text \<open>
  \<^verbatim>\<open>convert_schema_refs\<close> rewrites its argument in place and returns nothing. On a
  document that is a tree the effect is the rewritten tree, which is what this function
  returns; the version on a store of shared objects is \<open>convert_schema_refs_h\<close> below.
  \<open>csr_values\<close> is the loop over \<^verbatim>\<open>obj.items()\<close>, \<open>csr_items\<close> the loop over a
  list. An exception of \<^verbatim>\<open>convert_ref\<close> ends the traversal.
\<close>

function (sequential) convert_schema_refs :: "json \<Rightarrow> error + json"
  and csr_values :: "dict \<Rightarrow> error + dict"
  and csr_items :: "json list \<Rightarrow> error + json list" where
  "convert_schema_refs (JDict obj) =
     (case (case map_of obj ''$ref'' of
              None \<Rightarrow> Inr obj
            | Some r \<Rightarrow> (case convert_ref r of
                          Inl e \<Rightarrow> Inl e
                        | Inr r' \<Rightarrow> Inr (dict_set obj ''$ref'' r'))) of
        Inl e \<Rightarrow> Inl e
      | Inr obj' \<Rightarrow> (case csr_values obj' of
                       Inl e \<Rightarrow> Inl e
                     | Inr obj'' \<Rightarrow> Inr (JDict obj'')))"
| "convert_schema_refs (JList xs) =
     (case csr_items xs of Inl e \<Rightarrow> Inl e | Inr xs' \<Rightarrow> Inr (JList xs'))"
| "convert_schema_refs v = Inr v"
| "csr_values [] = Inr []"
| "csr_values ((k, v) # d) =
     (case convert_schema_refs v of
        Inl e \<Rightarrow> Inl e
      | Inr v' \<Rightarrow> (case csr_values d of
                     Inl e \<Rightarrow> Inl e
                   | Inr d' \<Rightarrow> Inr ((k, v') # d')))"
| "csr_items [] = Inr []"
| "csr_items (x # xs) =
     (case convert_schema_refs x of
        Inl e \<Rightarrow> Inl e
      | Inr x' \<Rightarrow> (case csr_items xs of
                     Inl e \<Rightarrow> Inl e
                   | Inr xs' \<Rightarrow> Inr (x' # xs')))"
  by pat_completeness auto
termination
  by (relation "measure (\<lambda>x. case x of
         Inl j \<Rightarrow> 2 * size j
       | Inr (Inl d) \<Rightarrow> 2 * size_list (size_prod (\<lambda>_. 0) size) d + 1
       | Inr (Inr xs) \<Rightarrow> 2 * size_list size xs + 1)")
     (auto split: option.splits sum.splits dest: size_dict_set size_convert_ref)

section \<open>Spec Converter\<close>

definition default_info :: json where
  "default_info = JDict [(''title'', JStr ''API''), (''version'', JStr ''1.0.0'')]"

text \<open>\<^verbatim>\<open>if k in spec: target[k'] = spec[k]\<close>\<close>

definition copy_key ::
  "(string \<times> 'v) list \<Rightarrow> string \<Rightarrow> string \<Rightarrow> (string \<times> 'v) list \<Rightarrow> (string \<times> 'v) list" where
  "copy_key spec k k' target =
     (case map_of spec k of Some v \<Rightarrow> dict_set target k' v | None \<Rightarrow> target)"

text \<open>
  What \<^verbatim>\<open>for scheme in schemes\<close> runs over: the elements of a list, the characters
  of a string, the keys of a dict; any other value is not iterable.
\<close>

definition iterate :: "json \<Rightarrow> error + json list" where
  "iterate v =
     (case v of
        JList xs \<Rightarrow> Inr xs
      | JStr s \<Rightarrow> Inr (map (\<lambda>c. JStr [c]) s)
      | JDict d \<Rightarrow> Inr (map (\<lambda>(k, _). JStr k) d)
      | _ \<Rightarrow> Inl TypeError)"

text \<open>
  The f-string \<^verbatim>\<open>f'{scheme}://{host}{base_path}'\<close> formats each of the three values
  with Python's built-in \<^verbatim>\<open>format\<close>. That function is the parameter \<open>fmt\<close> of the
  model; on a string it is the identity, which is all that is ever assumed of it.
\<close>

definition server_entry :: "(json \<Rightarrow> string) \<Rightarrow> json \<Rightarrow> json \<Rightarrow> json \<Rightarrow> json" where
  "server_entry fmt host base_path scheme =
     JDict [(''url'', JStr (fmt scheme @ ''://'' @ fmt host @ fmt base_path))]"

definition build_servers :: "(json \<Rightarrow> string) \<Rightarrow> dict \<Rightarrow> error + json list" where
  "build_servers fmt spec =
     (if has_key spec ''host'' \<or> has_key spec ''basePath'' \<or> has_key spec ''schemes'' then
        (let schemes = dict_get spec ''schemes'' (JList [JStr ''http'']);
             host = dict_get spec ''host'' (JStr ''localhost'');
             base_path = dict_get spec ''basePath'' (JStr [])
         in case iterate schemes of
              Inl e \<Rightarrow> Inl e
            | Inr ss \<Rightarrow> Inr (map (server_entry fmt host base_path) ss))
      else Inr [])"

definition build_components :: "(string \<times> 'v) list \<Rightarrow> (string \<times> 'v) list" where
  "build_components spec =
     copy_key spec ''securityDefinitions'' ''securitySchemes''
       (copy_key spec ''responses'' ''responses''
         (copy_key spec ''parameters'' ''parameters''
           (copy_key spec ''definitions'' ''schemas'' [])))"

text \<open>The four source keys of the components and the sub-key each one fills, in the
  order of the assignments.\<close>

definition component_keys :: "(string \<times> string) list" where
  "component_keys =
     [(''definitions'', ''schemas''), (''parameters'', ''parameters''),
      (''responses'', ''responses''), (''securityDefinitions'', ''securitySchemes'')]"

text \<open>
  \<^verbatim>\<open>for key in spec: if key.startswith('x-'): new_spec[key] = spec[key]\<close>, as a loop
  over the items of \<open>spec\<close> (the keys of a dict are distinct, so \<^verbatim>\<open>spec[key]\<close> is the
  value the key is paired with).
\<close>

fun copy_extensions :: "(string \<times> 'v) list \<Rightarrow> (string \<times> 'v) list \<Rightarrow> (string \<times> 'v) list" where
  "copy_extensions [] new_spec = new_spec"
| "copy_extensions ((key, v) # rest) new_spec =
     copy_extensions rest (if prefix ''x-'' key then dict_set new_spec key v else new_spec)"

text \<open>The mapping \<^verbatim>\<open>new_spec\<close> as it stands before the final pass over its references.\<close>

definition build_spec :: "(json \<Rightarrow> string) \<Rightarrow> dict \<Rightarrow> error + dict" where
  "build_spec fmt spec =
     (let new_spec = [(''openapi'', JStr ''3.0.0''),
                      (''info'', dict_get spec ''info'' default_info)];
          new_spec = copy_key spec ''externalDocs'' ''externalDocs'' new_spec;
          new_spec = copy_key spec ''tags'' ''tags'' new_spec;
          new_spec = copy_key spec ''security'' ''security'' new_spec
      in case build_servers fmt spec of
           Inl e \<Rightarrow> Inl e
         | Inr servers \<Rightarrow>
            (let new_spec = (if servers \<noteq> []
                             then dict_set new_spec ''servers'' (JList servers)
                             else new_spec);
                 components = build_components spec;
                 new_spec = (if components \<noteq> []
                             then dict_set new_spec ''components'' (JDict components)
                             else new_spec);
                 new_spec = copy_key spec ''paths'' ''paths'' new_spec
             in Inr (copy_extensions spec new_spec)))"

definition convert_spec :: "(json \<Rightarrow> string) \<Rightarrow> json \<Rightarrow> error + json" where
  "convert_spec fmt spec =
     (case spec of
        JDict d \<Rightarrow>
          if has_key d ''openapi'' then Inr spec
          else if \<not> has_key d ''swagger'' then Inr spec
          else (case build_spec fmt d of
                  Inl e \<Rightarrow> Inl e
                | Inr new_spec \<Rightarrow> convert_schema_refs (JDict new_spec))
      | _ \<Rightarrow> Inr spec)"

text \<open>A legacy document: a mapping with a \<^verbatim>\<open>swagger\<close> key and no \<^verbatim>\<open>openapi\<close> key.\<close>

definition is_legacy :: "json \<Rightarrow> bool" where
  "is_legacy spec =
     (case spec of JDict d \<Rightarrow> has_key d ''swagger'' \<and> \<not> has_key d ''openapi'' | _ \<Rightarrow> False)"

text \<open>An instance of the formatting parameter, used to run the model on examples
  whose formatted values are all strings.\<close>

definition fmt_str :: "json \<Rightarrow> string" where
  "fmt_str v = (case v of JStr s \<Rightarrow> s | _ \<Rightarrow> [])"

section \<open>Reading references off a document\<close>

text \<open>
  The values stored under the key \<^verbatim>\<open>$ref\<close> in the mappings of a document, at any
  depth, in the order of the traversal (a mapping's own reference, then those inside its
  values).
\<close>

fun ref_values :: "json \<Rightarrow> json list"
  and ref_values_d :: "dict \<Rightarrow> json list"
  and ref_values_l :: "json list \<Rightarrow> json list" where
  "ref_values (JDict obj) =
     (case map_of obj ''$ref'' of Some r \<Rightarrow> [r] | None \<Rightarrow> []) @ ref_values_d obj"
| "ref_values (JList xs) = ref_values_l xs"
| "ref_values v = []"
| "ref_values_d [] = []"
| "ref_values_d ((k, v) # d) = ref_values v @ ref_values_d d"
| "ref_values_l [] = []"
| "ref_values_l (x # xs) = ref_values x @ ref_values_l xs"

fun is_str :: "json \<Rightarrow> bool" where
  "is_str (JStr s) = True"
| "is_str v = False"

text \<open>Some mapping of the document, at any depth, has a \<^verbatim>\<open>$ref\<close> whose value is truthy
  and not a string.\<close>

fun bad_ref :: "json \<Rightarrow> bool"
  and bad_ref_d :: "dict \<Rightarrow> bool"
  and bad_ref_l :: "json list \<Rightarrow> bool" where
  "bad_ref (JDict obj) =
     ((case map_of obj ''$ref'' of Some r \<Rightarrow> truthy r \<and> \<not> is_str r | None \<Rightarrow> False)
      \<or> bad_ref_d obj)"
| "bad_ref (JList xs) = bad_ref_l xs"
| "bad_ref v = False"
| "bad_ref_d [] = False"
| "bad_ref_d ((k, v) # d) = (bad_ref v \<or> bad_ref_d d)"
| "bad_ref_l [] = False"
| "bad_ref_l (x # xs) = (bad_ref x \<or> bad_ref_l xs)"

text \<open>All the strings of a document: string values and keys, at any depth.\<close>

fun strings_of :: "json \<Rightarrow> string list"
  and strings_of_d :: "dict \<Rightarrow> string list"
  and strings_of_l :: "json list \<Rightarrow> string list" where
  "strings_of (JStr s) = [s]"
| "strings_of (JDict obj) = strings_of_d obj"
| "strings_of (JList xs) = strings_of_l xs"
| "strings_of v = []"
| "strings_of_d [] = []"
| "strings_of_d ((k, v) # d) = k # strings_of v @ strings_of_d d"
| "strings_of_l [] = []"
| "strings_of_l (x # xs) = strings_of x @ strings_of_l xs"

text \<open>
  A document with the value under every \<^verbatim>\<open>$ref\<close> key blanked. What is left is all
  that is not a reference: the keys and their order, the members of the lists, and every
  value that is not stored under a \<^verbatim>\<open>$ref\<close> key.
\<close>

fun blank_refs :: "json \<Rightarrow> json"
  and blank_refs_d :: "dict \<Rightarrow> dict"
  and blank_refs_l :: "json list \<Rightarrow> json list" where
  "blank_refs (JDict obj) = JDict (blank_refs_d obj)"
| "blank_refs (JList xs) = JList (blank_refs_l xs)"
| "blank_refs v = v"
| "blank_refs_d [] = []"
| "blank_refs_d ((k, v) # d) =
     (k, if k = ''$ref'' then JNull else blank_refs v) # blank_refs_d d"
| "blank_refs_l [] = []"
| "blank_refs_l (x # xs) = blank_refs x # blank_refs_l xs"

section \<open>Documents as objects in a store\<close>

text \<open>
  In the interpreter a list or a dict is an object with an identity: assigning it copies
  a reference, and a mutation is seen through every reference. The store is the list
  of the container objects allocated so far, an object's address its position; a value
  is a scalar or a reference. \<^verbatim>\<open>convert_spec\<close> puts sub-trees of its argument into the
  mapping it builds and then rewrites that mapping in place, so what it does to its
  argument is only visible here.
\<close>

datatype val = VNull | VBool bool | VInt int | VFloat real | VStr string | VRef nat

datatype obj = ODict "(string \<times> val) list" | OList "val list"

type_synonym heap = "obj list"

definition deref :: "heap \<Rightarrow> nat \<Rightarrow> obj option" where
  "deref h a = (if a < length h then Some (h ! a) else None)"

definition alloc :: "obj \<Rightarrow> heap \<Rightarrow> val \<times> heap" where
  "alloc ob h = (VRef (length h), h @ [ob])"

text \<open>
  The objects of a parsed document: a container takes the next free address, its
  members follow. \<open>enc b j\<close> is the value of \<open>j\<close> and the objects it occupies from
  address \<open>b\<close> on; \<open>load\<close> puts them at the end of a store.
\<close>

fun enc :: "nat \<Rightarrow> json \<Rightarrow> val \<times> obj list"
  and enc_d :: "nat \<Rightarrow> dict \<Rightarrow> (string \<times> val) list \<times> obj list"
  and enc_l :: "nat \<Rightarrow> json list \<Rightarrow> val list \<times> obj list" where
  "enc b JNull = (VNull, [])"
| "enc b (JBool x) = (VBool x, [])"
| "enc b (JInt i) = (VInt i, [])"
| "enc b (JFloat r) = (VFloat r, [])"
| "enc b (JStr s) = (VStr s, [])"
| "enc b (JList xs) = (case enc_l (Suc b) xs of (vs, os) \<Rightarrow> (VRef b, OList vs # os))"
| "enc b (JDict d) = (case enc_d (Suc b) d of (kvs, os) \<Rightarrow> (VRef b, ODict kvs # os))"
| "enc_d b [] = ([], [])"
| "enc_d b ((k, x) # d) =
     (case enc b x of (v, os) \<Rightarrow>
        (case enc_d (b + length os) d of (kvs, os') \<Rightarrow> ((k, v) # kvs, os @ os')))"
| "enc_l b [] = ([], [])"
| "enc_l b (x # xs) =
     (case enc b x of (v, os) \<Rightarrow>
        (case enc_l (b + length os) xs of (vs, os') \<Rightarrow> (v # vs, os @ os')))"

definition load :: "json \<Rightarrow> heap \<Rightarrow> val \<times> heap" where
  "load j h = (case enc (length h) j of (v, os) \<Rightarrow> (v, h @ os))"

text \<open>
  Reading a document off the store, as a serialiser does. The first argument bounds the
  nesting (the interpreter's recursion limit); \<open>None\<close> is a serialisation that raises.
\<close>

fun read_json :: "nat \<Rightarrow> heap \<Rightarrow> val \<Rightarrow> json option"
  and read_d :: "nat \<Rightarrow> heap \<Rightarrow> (string \<times> val) list \<Rightarrow> dict option"
  and read_l :: "nat \<Rightarrow> heap \<Rightarrow> val list \<Rightarrow> json list option" where
  "read_json 0 h v = None"
| "read_json (Suc n) h VNull = Some JNull"
| "read_json (Suc n) h (VBool x) = Some (JBool x)"
| "read_json (Suc n) h (VInt i) = Some (JInt i)"
| "read_json (Suc n) h (VFloat r) = Some (JFloat r)"
| "read_json (Suc n) h (VStr s) = Some (JStr s)"
| "read_json (Suc n) h (VRef a) =
     (case deref h a of
        Some (ODict d) \<Rightarrow> map_option JDict (read_d n h d)
      | Some (OList xs) \<Rightarrow> map_option JList (read_l n h xs)
      | None \<Rightarrow> None)"
| "read_d n h [] = Some []"
| "read_d n h ((k, v) # d) =
     (case read_json n h v of
        None \<Rightarrow> None
      | Some x \<Rightarrow> map_option (\<lambda>d'. (k, x) # d') (read_d n h d))"
| "read_l n h [] = Some []"
| "read_l n h (v # vs) =
     (case read_json n h v of
        None \<Rightarrow> None
      | Some x \<Rightarrow> map_option (\<lambda>xs. x # xs) (read_l n h vs))"

subsection \<open>The Reference Rewriter on the store\<close>

fun truthy_h :: "heap \<Rightarrow> val \<Rightarrow> bool" where
  "truthy_h h VNull = False"
| "truthy_h h (VBool b) = b"
| "truthy_h h (VInt i) = (i \<noteq> 0)"
| "truthy_h h (VFloat r) = (r \<noteq> 0)"
| "truthy_h h (VStr s) = (s \<noteq> [])"
| "truthy_h h (VRef a) =
     (case deref h a of
        Some (ODict d) \<Rightarrow> d \<noteq> []
      | Some (OList xs) \<Rightarrow> xs \<noteq> []
      | None \<Rightarrow> False)"

definition convert_ref_h :: "heap \<Rightarrow> val \<Rightarrow> error + val" where
  "convert_ref_h h ref_string =
     (if \<not> truthy_h h ref_string then Inr ref_string
      else case ref_string of
        VStr s \<Rightarrow>
          Inr (VStr (replace ''#/responses/'' ''#/components/responses/''
                 (replace ''#/parameters/'' ''#/components/parameters/''
                   (replace ''#/definitions/'' ''#/components/schemas/'' s))))
      | _ \<Rightarrow> Inl AttributeError)"

text \<open>
  \<^verbatim>\<open>convert_schema_refs\<close> as the source has it: it rewrites the object its argument
  refers to and returns the store. The first argument is the number of nested calls the
  interpreter still allows; a call beyond it raises \<^verbatim>\<open>RecursionError\<close>, which is how the
  traversal of a cyclic structure ends. \<open>csr_each_h\<close> is either \<^verbatim>\<open>for\<close> loop; it runs
  over the members the container has when the loop starts (the traversal never adds or
  removes a member).
\<close>

fun convert_schema_refs_h :: "nat \<Rightarrow> val \<Rightarrow> heap \<Rightarrow> error + heap"
  and csr_each_h :: "nat \<Rightarrow> val list \<Rightarrow> heap \<Rightarrow> error + heap" where
  "convert_schema_refs_h 0 v h = Inl RecursionError"
| "convert_schema_refs_h (Suc n) (VRef a) h =
     (case deref h a of
        Some (ODict obj) \<Rightarrow>
          (case map_of obj ''$ref'' of
             None \<Rightarrow> csr_each_h n (map snd obj) h
           | Some r \<Rightarrow>
              (case convert_ref_h h r of
                 Inl e \<Rightarrow> Inl e
               | Inr r' \<Rightarrow>
                  csr_each_h n (map snd (dict_set obj ''$ref'' r'))
                    (h[a := ODict (dict_set obj ''$ref'' r')])))
      | Some (OList xs) \<Rightarrow> csr_each_h n xs h
      | None \<Rightarrow> Inr h)"
| "convert_schema_refs_h (Suc n) v h = Inr h"
| "csr_each_h n [] h = Inr h"
| "csr_each_h n (v # vs) h =
     (case convert_schema_refs_h n v h of
        Inl e \<Rightarrow> Inl e
      | Inr h' \<Rightarrow> csr_each_h n vs h')"

subsection \<open>The Spec Converter on the store\<close>

text \<open>
  The parameter \<open>fmt\<close> is again Python's \<^verbatim>\<open>format\<close>, here of a value in a store.
  What iterating a value runs over:
\<close>

definition iterate_h :: "heap \<Rightarrow> val \<Rightarrow> error + val list" where
  "iterate_h h v =
     (case v of
        VStr s \<Rightarrow> Inr (map (\<lambda>c. VStr [c]) s)
      | VRef a \<Rightarrow>
         (case deref h a of
            Some (OList xs) \<Rightarrow> Inr xs
          | Some (ODict d) \<Rightarrow> Inr (map (\<lambda>(k, _). VStr k) d)
          | None \<Rightarrow> Inl TypeError)
      | _ \<Rightarrow> Inl TypeError)"

text \<open>\<^verbatim>\<open>servers.append({'url': ...})\<close> for each scheme: every entry is a new dict.\<close>

fun alloc_servers ::
  "(heap \<Rightarrow> val \<Rightarrow> string) \<Rightarrow> val \<Rightarrow> val \<Rightarrow> val list \<Rightarrow> heap \<Rightarrow> val list \<times> heap" where
  "alloc_servers fmt host base_path [] h = ([], h)"
| "alloc_servers fmt host base_path (scheme # ss) h =
     (case alloc (ODict [(''url'',
              VStr (fmt h scheme @ ''://'' @ fmt h host @ fmt h base_path))]) h of
        (v, h') \<Rightarrow>
          (case alloc_servers fmt host base_path ss h' of
             (vs, h'') \<Rightarrow> (v # vs, h'')))"

text \<open>The default \<^verbatim>\<open>['http']\<close> is only iterated over, so it is not given an address.\<close>

definition build_servers_h ::
  "(heap \<Rightarrow> val \<Rightarrow> string) \<Rightarrow> (string \<times> val) list \<Rightarrow> heap \<Rightarrow> error + val list \<times> heap" where
  "build_servers_h fmt spec h =
     (if has_key spec ''host'' \<or> has_key spec ''basePath'' \<or> has_key spec ''schemes'' then
        (let host = dict_get spec ''host'' (VStr ''localhost'');
             base_path = dict_get spec ''basePath'' (VStr [])
         in case (case map_of spec ''schemes'' of
                    None \<Rightarrow> Inr [VStr ''http'']
                  | Some schemes \<Rightarrow> iterate_h h schemes) of
              Inl e \<Rightarrow> Inl e
            | Inr ss \<Rightarrow> Inr (alloc_servers fmt host base_path ss h))
      else Inr ([], h))"



subsection \<open>Equality of two values\<close>

text \<open>
  \<^verbatim>\<open>converted == data\<close>. Numbers (booleans among them) compare by value, strings by
  content, lists member by member, dicts by their key sets and the values under each
  key; the members of a container are first compared by identity. Each comparison is a
  nested call of the interpreter.
\<close>

fun num_of :: "val \<Rightarrow> real option" where
  "num_of (VBool b) = Some (if b then 1 else 0)"
| "num_of (VInt i) = Some (of_int i)"
| "num_of (VFloat r) = Some r"
| "num_of v = None"

definition scalar_equal :: "val \<Rightarrow> val \<Rightarrow> bool" where
  "scalar_equal v w =
     (case v of
        VStr s \<Rightarrow> (case w of VStr t \<Rightarrow> s = t | _ \<Rightarrow> False)
      | VNull \<Rightarrow> w = VNull
      | _ \<Rightarrow> (case num_of v of
                None \<Rightarrow> False
              | Some x \<Rightarrow> (case num_of w of None \<Rightarrow> False | Some y \<Rightarrow> x = y)))"

function (sequential) rich_compare :: "nat \<Rightarrow> heap \<Rightarrow> val \<Rightarrow> val \<Rightarrow> error + bool"
  and dict_equal :: "nat \<Rightarrow> heap \<Rightarrow> (string \<times> val) list \<Rightarrow> (string \<times> val) list \<Rightarrow> error + bool"
  and list_equal :: "nat \<Rightarrow> heap \<Rightarrow> val list \<Rightarrow> val list \<Rightarrow> error + bool" where
  "rich_compare 0 h v w = Inl RecursionError"
| "rich_compare (Suc n) h v w =
     (case v of
        VRef a \<Rightarrow>
          (case w of
             VRef b \<Rightarrow>
               (case deref h a of
                  Some (ODict d1) \<Rightarrow>
                    (case deref h b of
                       Some (ODict d2) \<Rightarrow>
                         if length d1 \<noteq> length d2 then Inr False
                         else dict_equal n h d1 d2
                     | _ \<Rightarrow> Inr False)
                | Some (OList xs) \<Rightarrow>
                    (case deref h b of
                       Some (OList ys) \<Rightarrow>
                         if length xs \<noteq> length ys then Inr False
                         else list_equal n h xs ys
                     | _ \<Rightarrow> Inr False)
                | None \<Rightarrow> Inr False)
           | _ \<Rightarrow> Inr False)
      | _ \<Rightarrow> Inr (scalar_equal v w))"
| "dict_equal n h [] d2 = Inr True"
| "dict_equal n h ((k, v) # d1) d2 =
     (case map_of d2 k of
        None \<Rightarrow> Inr False
      | Some w \<Rightarrow>
         (case (if v = w then Inr True else rich_compare n h v w) of
            Inl e \<Rightarrow> Inl e
          | Inr eq \<Rightarrow> if eq then dict_equal n h d1 d2 else Inr False))"
| "list_equal n h [] ys = Inr True"
| "list_equal n h (x # xs) [] = Inr False"
| "list_equal n h (x # xs) (y # ys) =
     (case (if x = y then Inr True else rich_compare n h x y) of
        Inl e \<Rightarrow> Inl e
      | Inr eq \<Rightarrow> if eq then list_equal n h xs ys else Inr False)"
  by pat_completeness auto
termination
  by (relation "inv_image (less_than <*lex*> less_than) (\<lambda>x. case x of
         Inl (n, h, v, w) \<Rightarrow> (n, 0)
       | Inr (Inl (n, h, d1, d2)) \<Rightarrow> (n, Suc (length d1))
       | Inr (Inr (n, h, xs, ys)) \<Rightarrow> (n, Suc (length xs)))")
    auto

section \<open>Trees in the store\<close>

text \<open>
  A parsed document is a tree of objects: no object is referred to twice. The layout of
  a document in a store records where its containers are: a leaf for a scalar, a node
  with the address of a list or dict and the layouts of its members. \<open>sits h l j\<close> says
  that in the store \<open>h\<close> the objects at the addresses of \<open>l\<close> hold the document \<open>j\<close>, and
  \<open>root l j\<close> is the value that denotes it. The document is a tree when the addresses
  of its layout are distinct.
\<close>

datatype layout = Leaf | Node nat "layout list"

fun scalar :: "json \<Rightarrow> val" where
  "scalar JNull = VNull"
| "scalar (JBool b) = VBool b"
| "scalar (JInt i) = VInt i"
| "scalar (JFloat r) = VFloat r"
| "scalar (JStr s) = VStr s"
| "scalar j = VNull"

fun root :: "layout \<Rightarrow> json \<Rightarrow> val" where
  "root Leaf j = scalar j"
| "root (Node a ls) j = VRef a"

fun roots :: "layout list \<Rightarrow> json list \<Rightarrow> val list" where
  "roots (l # ls) (x # xs) = root l x # roots ls xs"
| "roots ls xs = []"

fun addrs :: "layout \<Rightarrow> nat list"
  and addrs_l :: "layout list \<Rightarrow> nat list" where
  "addrs Leaf = []"
| "addrs (Node a ls) = a # addrs_l ls"
| "addrs_l [] = []"
| "addrs_l (l # ls) = addrs l @ addrs_l ls"

fun sits :: "heap \<Rightarrow> layout \<Rightarrow> json \<Rightarrow> bool"
  and sits_l :: "heap \<Rightarrow> layout list \<Rightarrow> json list \<Rightarrow> bool" where
  "sits h Leaf j = (case j of JList xs \<Rightarrow> False | JDict d \<Rightarrow> False | _ \<Rightarrow> True)"
| "sits h (Node a ls) j =
     (case j of
        JList xs \<Rightarrow> deref h a = Some (OList (roots ls xs)) \<and> sits_l h ls xs
      | JDict d \<Rightarrow>
          deref h a = Some (ODict (zip (map fst d) (roots ls (map snd d))))
          \<and> sits_l h ls (map snd d)
      | _ \<Rightarrow> False)"
| "sits_l h [] xs = (xs = [])"
| "sits_l h (l # ls) xs =
     (case xs of [] \<Rightarrow> False | x # xs' \<Rightarrow> sits h l x \<and> sits_l h ls xs')"

text \<open>The layout \<open>enc\<close> gives a document that is loaded at address \<open>b\<close>.\<close>

fun lay_of :: "nat \<Rightarrow> json \<Rightarrow> layout"
  and lay_of_d :: "nat \<Rightarrow> dict \<Rightarrow> layout list"
  and lay_of_l :: "nat \<Rightarrow> json list \<Rightarrow> layout list" where
  "lay_of b (JList xs) = Node b (lay_of_l (Suc b) xs)"
| "lay_of b (JDict d) = Node b (lay_of_d (Suc b) d)"
| "lay_of b j = Leaf"
| "lay_of_d b [] = []"
| "lay_of_d b ((k, x) # d) = lay_of b x # lay_of_d (b + length (snd (enc b x))) d"
| "lay_of_l b [] = []"
| "lay_of_l b (x # xs) = lay_of b x # lay_of_l (b + length (snd (enc b x))) xs"

text \<open>
  The number of nested calls the traversal of a document makes: one for a scalar, one
  more than for its deepest member for a container.
\<close>

fun height :: "json \<Rightarrow> nat"
  and height_d :: "dict \<Rightarrow> nat"
  and height_l :: "json list \<Rightarrow> nat" where
  "height (JList xs) = Suc (height_l xs)"
| "height (JDict d) = Suc (height_d d)"
| "height j = 1"
| "height_d [] = 0"
| "height_d ((k, x) # d) = max (height x) (height_d d)"
| "height_l [] = 0"
| "height_l (x # xs) = max (height x) (height_l xs)"

text \<open>
  What it means for a run on the store to do what the function on documents does: the
  same exception, or a store in which the same layout holds the document returned, and
  which is unchanged outside the layout's addresses.
\<close>

definition refines ::
  "heap \<Rightarrow> layout \<Rightarrow> json \<Rightarrow> error + heap \<Rightarrow> error + json \<Rightarrow> bool" where
  "refines h l j rh rj =
     (case rj of
        Inl e \<Rightarrow> rh = Inl e
      | Inr j' \<Rightarrow>
          (\<exists>h'. rh = Inr h' \<and> sits h' l j' \<and> root l j' = root l j
             \<and> length h' = length h
             \<and> (\<forall>a. a \<notin> set (addrs l) \<longrightarrow> deref h' a = deref h a)))"

definition refines_l ::
  "heap \<Rightarrow> layout list \<Rightarrow> json list \<Rightarrow> error + heap \<Rightarrow> error + json list \<Rightarrow> bool" where
  "refines_l h ls xs rh rxs =
     (case rxs of
        Inl e \<Rightarrow> rh = Inl e
      | Inr xs' \<Rightarrow>
          (\<exists>h'. rh = Inr h' \<and> sits_l h' ls xs' \<and> roots ls xs' = roots ls xs
             \<and> length h' = length h
             \<and> (\<forall>a. a \<notin> set (addrs_l ls) \<longrightarrow> deref h' a = deref h a)))"

section \<open>The assembled mapping as a tree in the store\<close>

text \<open>
  The assignments that fill \<^verbatim>\<open>new_spec\<close>, whatever the values are: \<open>build_spec\<close> makes
  them on documents, \<open>build_spec_h\<close> on values of a store. The version string, the
  \<^verbatim>\<open>info\<close> entry, the server list and the components (each of the last two present
  or not) are given.
\<close>

definition assemble ::
  "'v \<Rightarrow> 'v \<Rightarrow> 'v option \<Rightarrow> 'v option \<Rightarrow> (string \<times> 'v) list \<Rightarrow> (string \<times> 'v) list" where
  "assemble version info servers components spec =
     (let new_spec = [(''openapi'', version), (''info'', info)];
          new_spec = copy_key spec ''externalDocs'' ''externalDocs'' new_spec;
          new_spec = copy_key spec ''tags'' ''tags'' new_spec;
          new_spec = copy_key spec ''security'' ''security'' new_spec;
          new_spec = (case servers of
                        Some sv \<Rightarrow> dict_set new_spec ''servers'' sv
                      | None \<Rightarrow> new_spec);
          new_spec = (case components of
                        Some c \<Rightarrow> dict_set new_spec ''components'' c
                      | None \<Rightarrow> new_spec);
          new_spec = copy_key spec ''paths'' ''paths'' new_spec
      in copy_extensions spec new_spec)"

text \<open>
  A mapping whose values carry their layouts: the documents, the values that denote
  them in the store, and the layouts.
\<close>

type_synonym adict = "(string \<times> layout \<times> json) list"

definition annot :: "layout list \<Rightarrow> dict \<Rightarrow> adict" where
  "annot ls d = zip (map fst d) (zip ls (map snd d))"

definition docs_of :: "adict \<Rightarrow> dict" where
  "docs_of ad = map (apsnd snd) ad"

definition vals_of :: "adict \<Rightarrow> (string \<times> val) list" where
  "vals_of ad = map (apsnd (\<lambda>(l, x). root l x)) ad"

definition lays_of :: "adict \<Rightarrow> layout list" where
  "lays_of ad = map (\<lambda>(k, l, x). l) ad"

text \<open>
  The mapping \<^verbatim>\<open>new_spec\<close> with the layouts of its values, when the store has \<open>n\<close>
  objects before the call and \<open>sv\<close> are the server entries: a value copied from the
  input keeps the layout it has there; the default \<^verbatim>\<open>info\<close>, the server entries, their
  list and the components are new objects, at the next free addresses in the order of
  their creation (\<open>server_lays\<close> are the layouts of the server entries, one dict with
  a string each).
\<close>

fun server_lays :: "nat \<Rightarrow> json list \<Rightarrow> layout list" where
  "server_lays n [] = []"
| "server_lays n (x # xs) = Node n [Leaf] # server_lays (Suc n) xs"

definition new_tree :: "nat \<Rightarrow> json list \<Rightarrow> adict \<Rightarrow> adict" where
  "new_tree n sv ad =
     (let n1 = (if has_key ad ''info'' then n else Suc n);
          n3 = (if sv \<noteq> [] then Suc (n1 + length sv) else n1)
      in assemble (Leaf, JStr ''3.0.0'')
           (dict_get ad ''info'' (Node n [Leaf, Leaf], default_info))
           (if sv \<noteq> []
            then Some (Node (n1 + length sv) (server_lays n1 sv), JList sv)
            else None)
           (if build_components ad \<noteq> []
            then Some (Node n3 (lays_of (build_components ad)),
                       JDict (docs_of (build_components ad)))
            else None)
           ad)"

text \<open>
  \<^verbatim>\<open>format\<close> reads a value through the store; on a tree it depends on the document
  only. This is what relates the formatting parameter of the model on the store to that
  of the model on documents.
\<close>

definition fmt_agrees :: "(heap \<Rightarrow> val \<Rightarrow> string) \<Rightarrow> (json \<Rightarrow> string) \<Rightarrow> bool" where
  "fmt_agrees fmt_h fmt = (\<forall>h l x. sits h l x \<longrightarrow> fmt_h h (root l x) = fmt x)"

section \<open>Files and the batch run\<close>













section \<open>Dictionaries and the traversal: basic facts\<close>

lemma has_key_Nil [simp]: "\<not> has_key [] k"
  by (simp add: has_key_def)

lemma has_key_Cons [simp]: "has_key ((k', v) # d) k \<longleftrightarrow> k' = k \<or> has_key d k"
  by (auto simp: has_key_def)

lemma has_key_map_of: "has_key d k \<longleftrightarrow> map_of d k \<noteq> None"
  by (induction d) auto

lemma has_key_keys: "map fst d' = map fst d \<Longrightarrow> has_key d' k = has_key d k"
  by (simp only: has_key_def)

lemma map_of_dict_set: "map_of (dict_set d k v) = (map_of d)(k \<mapsto> v)"
  by (induction d) auto

lemma has_key_dict_set [simp]: "has_key (dict_set d k v) k' \<longleftrightarrow> k' = k \<or> has_key d k'"
  by (induction d) (auto split: if_splits)

lemma keys_dict_set:
  "map fst (dict_set d k v) = (if has_key d k then map fst d else map fst d @ [k])"
  by (induction d) auto

lemma has_key_copy_key:
  "has_key (copy_key spec k k' t) x \<longleftrightarrow> (x = k' \<and> has_key spec k) \<or> has_key t x"
  by (auto simp: copy_key_def has_key_map_of map_of_dict_set split: option.splits)

lemma has_key_copy_extensions_mono:
  "has_key t x \<Longrightarrow> has_key (copy_extensions spec t) x"
  by (induction spec arbitrary: t) auto

lemma csr_values_keys: "csr_values d = Inr d' \<Longrightarrow> map fst d' = map fst d"
  by (induction d arbitrary: d') (auto split: sum.splits)

lemma csr_dict_keys:
  assumes "convert_schema_refs (JDict obj) = Inr j"
  shows "\<exists>obj'. j = JDict obj' \<and> map fst obj' = map fst obj"
  using assms
  by (auto split: option.splits sum.splits dest!: csr_values_keys
      simp: keys_dict_set has_key_map_of)

lemma build_spec_openapi: "build_spec fmt d = Inr ns \<Longrightarrow> has_key ns ''openapi''"
  by (auto simp: build_spec_def Let_def has_key_copy_key has_key_copy_extensions_mono
      split: sum.splits if_splits intro!: has_key_copy_extensions_mono)

lemma convert_spec_not_legacy: "\<not> is_legacy spec \<Longrightarrow> convert_spec fmt spec = Inr spec"
  by (cases spec) (auto simp: convert_spec_def is_legacy_def)

lemma convert_spec_legacy:
  assumes "is_legacy spec" and "convert_spec fmt spec = Inr out"
  obtains d ns where "spec = JDict d" and "build_spec fmt d = Inr ns"
    and "convert_schema_refs (JDict ns) = Inr out"
  using assms
  by (cases spec) (auto simp: is_legacy_def convert_spec_def split: sum.splits)

lemma convert_spec_openapi:
  assumes "is_legacy spec" and "convert_spec fmt spec = Inr out"
  shows "\<exists>d. out = JDict d \<and> has_key d ''openapi''"
proof -
  from assms obtain d ns where ns: "build_spec fmt d = Inr ns"
     and out: "convert_schema_refs (JDict ns) = Inr out"
    by (rule convert_spec_legacy)
  from csr_dict_keys [OF out] obtain d' where d': "out = JDict d'" "map fst d' = map fst ns"
    by blast
  from has_key_keys [OF d'(2)] build_spec_openapi [OF ns] d'(1) show ?thesis
    by simp
qed

section \<open>String replacement\<close>

lemma replace_Nil [simp]: "old \<noteq> [] \<Longrightarrow> replace old new [] = []"
  by (simp add: replace.simps)

lemma replace_Cons:
  "old \<noteq> [] \<Longrightarrow> replace old new (c # cs) =
     (if prefix old (c # cs) then new @ replace old new (drop (length old) (c # cs))
      else c # replace old new cs)"
  by (subst replace.simps) simp

lemma replace_absent: "old \<noteq> [] \<Longrightarrow> \<not> sublist old s \<Longrightarrow> replace old new s = s"
  by (induction s) (auto simp: replace_Cons sublist_Cons_right)

lemma replace_match: "old \<noteq> [] \<Longrightarrow> replace old new (old @ r) = new @ replace old new r"
  by (cases old) (auto simp: replace_Cons)


lemma apart_append: "apart x y \<Longrightarrow> \<not> prefix x (y @ t)"
  by (auto simp: apart_def prefix_append)

lemma apart_append2: "apart x y \<Longrightarrow> \<not> prefix (x @ t) y"
  by (auto simp: apart_def dest: append_prefixD)

lemma replace_skip:
  "m \<notin> set p \<Longrightarrow> replace (m # a) new (p @ r) = p @ replace (m # a) new r"
  by (induction p) (auto simp: replace_Cons)

lemma prefix_replace:
  "m \<notin> set p \<Longrightarrow> prefix p (replace (m # a) (m # a') s) \<longleftrightarrow> prefix p s"
proof (induction s arbitrary: p)
  case Nil
  then show ?case by simp
next
  case (Cons c cs)
  show ?case
  proof (cases p)
    case Nil
    then show ?thesis by simp
  next
    case (Cons q qs)
    with Cons.prems have q: "q \<noteq> m" "m \<notin> set qs" by auto
    show ?thesis
    proof (cases "prefix (m # a) (c # cs)")
      case True
      with q Cons show ?thesis by (auto simp: replace_Cons)
    next
      case False
      with q Cons Cons.IH [of qs] show ?thesis by (auto simp: replace_Cons)
    qed
  qed
qed

lemma sublist_skip: "m \<notin> set q \<Longrightarrow> sublist (m # p) (q @ t) \<longleftrightarrow> sublist (m # p) t"
  by (induction q) (auto simp: sublist_Cons_right)

lemma sublist_replace:
  assumes "m \<notin> set p" and "m \<notin> set a'" and "apart p a'"
    and "sublist (m # p) (replace (m # a) (m # a') s)"
  shows "p \<noteq> a \<and> sublist (m # p) s"
  using assms(4)
proof (induction s rule: length_induct)
  case (1 s)
  show ?case
  proof (cases s)
    case Nil
    with 1 show ?thesis by simp
  next
    case (Cons c cs)
    show ?thesis
    proof (cases "prefix (m # a) s")
      case True
      then obtain r where r: "s = (m # a) @ r" by (auto simp: prefix_def)
      then have "replace (m # a) (m # a') s = m # a' @ replace (m # a) (m # a') r"
        using replace_match [of "m # a" "m # a'" r] by simp
      with 1(2) assms(1-3) have "sublist (m # p) (replace (m # a) (m # a') r)"
        by (auto simp: sublist_Cons_right sublist_skip apart_append)
      moreover have "length r < length s" using r by simp
      ultimately have "p \<noteq> a \<and> sublist (m # p) r" using 1(1) by blast
      moreover have "sublist r s" using r by (metis sublist_append_leftI)
      ultimately show ?thesis by (meson sublist_order.order_trans)
    next
      case False
      with Cons have eq: "replace (m # a) (m # a') s = c # replace (m # a) (m # a') cs"
        by (auto simp: replace_Cons)
      from 1(2) [unfolded eq sublist_Cons_right]
      show ?thesis
      proof
        assume "prefix (m # p) (c # replace (m # a) (m # a') cs)"
        then have "prefix (m # p) s" using assms(1) Cons by (simp add: prefix_replace)
        with False show ?thesis by auto
      next
        assume "sublist (m # p) (replace (m # a) (m # a') cs)"
        moreover have "length cs < length s" using Cons by simp
        ultimately have "p \<noteq> a \<and> sublist (m # p) cs" using 1(1) by blast
        with Cons show ?thesis by (auto simp: sublist_Cons_right)
      qed
    qed
  qed
qed

lemma replace_commute:
  assumes "m \<notin> set a" "m \<notin> set a'" "m \<notin> set b" "m \<notin> set b'"
    and "apart a b" "apart b a'" "apart a b'"
  shows "replace (m # b) (m # b') (replace (m # a) (m # a') s)
       = replace (m # a) (m # a') (replace (m # b) (m # b') s)"
proof (induction s rule: length_induct)
  case (1 s)
  let ?f = "replace (m # a) (m # a')" and ?g = "replace (m # b) (m # b')"
  show ?case
  proof (cases s)
    case Nil
    then show ?thesis by simp
  next
    case (Cons c cs)
    consider (A) "prefix (m # a) s" | (B) "prefix (m # b) s"
      | (N) "\<not> prefix (m # a) s" "\<not> prefix (m # b) s" by blast
    then show ?thesis
    proof cases
      case A
      then obtain r where r: "s = m # a @ r" by (auto simp: prefix_def)
      have "?f s = m # a' @ ?f r"
        using replace_match [of "m # a" "m # a'" r] r by simp
      then have 1: "?g (?f s) = m # a' @ ?g (?f r)"
        using assms by (simp add: replace_Cons apart_append replace_skip)
      have "?g s = m # a @ ?g r"
        using assms r by (simp add: replace_Cons apart_append replace_skip apart_def)
      then have 2: "?f (?g s) = m # a' @ ?f (?g r)"
        using replace_match [of "m # a" "m # a'" "?g r"] by simp
      from 1 2 "1.IH" r show ?thesis by simp
    next
      case B
      then obtain r where r: "s = m # b @ r" by (auto simp: prefix_def)
      have "?g s = m # b' @ ?g r"
        using replace_match [of "m # b" "m # b'" r] r by simp
      then have 1: "?f (?g s) = m # b' @ ?f (?g r)"
        using assms by (simp add: replace_Cons apart_append replace_skip)
      have "?f s = m # b @ ?f r"
        using assms r by (simp add: replace_Cons apart_append replace_skip apart_def)
      then have 2: "?g (?f s) = m # b' @ ?g (?f r)"
        using replace_match [of "m # b" "m # b'" "?f r"] by simp
      from 1 2 "1.IH" r show ?thesis by simp
    next
      case N
      with Cons have f: "?f s = c # ?f cs" and g: "?g s = c # ?g cs"
        by (auto simp: replace_Cons)
      from N Cons assms have "\<not> prefix (m # b) (c # ?f cs)" "\<not> prefix (m # a) (c # ?g cs)"
        by (simp_all add: prefix_replace)
      with f g have "?g (?f s) = c # ?g (?f cs)" "?f (?g s) = c # ?f (?g cs)"
        by (auto simp: replace_Cons)
      with "1.IH" Cons show ?thesis by simp
    qed
  qed
qed

section \<open>The three substitutions\<close>

lemma replace_through:
  "m \<notin> set a' \<Longrightarrow> apart b a' \<Longrightarrow>
   replace (m # b) new (m # a' @ x) = m # a' @ replace (m # b) new x"
  by (simp add: replace_Cons apart_append replace_skip)

lemma replace_keep:
  "\<not> prefix (m # b) (c # cs) \<Longrightarrow> replace (m # b) new (c # cs) = c # replace (m # b) new cs"
  by (auto simp: replace_Cons)

lemma prefix_past_replace:
  "m \<notin> set b \<Longrightarrow>
   prefix (m # b) (c # replace (m # a) (m # a') cs) \<longleftrightarrow> prefix (m # b) (c # cs)"
  by (simp add: prefix_replace)


lemma convert_ref_str: "convert_ref (JStr s) = Inr (JStr (rewrite_text s))"
  by (simp add: convert_ref_def rewrite_text_def)

lemma apart_simps [simp]:
  "apart ''/definitions/'' ''/parameters/''"
  "apart ''/definitions/'' ''/responses/''"
  "apart ''/parameters/'' ''/responses/''"
  "apart ''/parameters/'' ''/definitions/''"
  "apart ''/responses/'' ''/definitions/''"
  "apart ''/responses/'' ''/parameters/''"
  "apart ''/definitions/'' ''/components/schemas/''"
  "apart ''/definitions/'' ''/components/parameters/''"
  "apart ''/definitions/'' ''/components/responses/''"
  "apart ''/parameters/'' ''/components/schemas/''"
  "apart ''/parameters/'' ''/components/parameters/''"
  "apart ''/parameters/'' ''/components/responses/''"
  "apart ''/responses/'' ''/components/schemas/''"
  "apart ''/responses/'' ''/components/parameters/''"
  "apart ''/responses/'' ''/components/responses/''"
  by (simp_all add: apart_def)

lemma rewrite_text_Nil [simp]: "rewrite_text [] = []"
  by (simp add: rewrite_text_def)

lemma rewrite_text_definitions:
  "rewrite_text (''#/definitions/'' @ r) = ''#/components/schemas/'' @ rewrite_text r"
proof -
  have "replace ''#/definitions/'' ''#/components/schemas/'' (''#/definitions/'' @ r)
        = ''#/components/schemas/'' @ replace ''#/definitions/'' ''#/components/schemas/'' r"
    by (rule replace_match) simp
  then show ?thesis
    using replace_through [of "CHR ''#''" "''/components/schemas/''" "''/parameters/''"]
      replace_through [of "CHR ''#''" "''/components/schemas/''" "''/responses/''"]
    by (simp add: rewrite_text_def)
qed

lemma rewrite_text_parameters:
  "rewrite_text (''#/parameters/'' @ r) = ''#/components/parameters/'' @ rewrite_text r"
proof -
  let ?d = "replace ''#/definitions/'' ''#/components/schemas/''"
  have "?d (''#/parameters/'' @ r) = ''#/parameters/'' @ ?d r"
    using replace_through [of "CHR ''#''" "''/parameters/''" "''/definitions/''"]
    by simp
  moreover have "replace ''#/parameters/'' ''#/components/parameters/'' (''#/parameters/'' @ ?d r)
        = ''#/components/parameters/'' @ replace ''#/parameters/'' ''#/components/parameters/'' (?d r)"
    by (rule replace_match) simp
  ultimately show ?thesis
    using replace_through [of "CHR ''#''" "''/components/parameters/''" "''/responses/''"]
    by (simp add: rewrite_text_def)
qed

lemma rewrite_text_responses:
  "rewrite_text (''#/responses/'' @ r) = ''#/components/responses/'' @ rewrite_text r"
proof -
  let ?d = "replace ''#/definitions/'' ''#/components/schemas/''"
  let ?p = "replace ''#/parameters/'' ''#/components/parameters/''"
  have "?d (''#/responses/'' @ r) = ''#/responses/'' @ ?d r"
    using replace_through [of "CHR ''#''" "''/responses/''" "''/definitions/''"]
    by simp
  moreover have "?p (''#/responses/'' @ ?d r) = ''#/responses/'' @ ?p (?d r)"
    using replace_through [of "CHR ''#''" "''/responses/''" "''/parameters/''"]
    by simp
  moreover have "replace ''#/responses/'' ''#/components/responses/'' (''#/responses/'' @ ?p (?d r))
        = ''#/components/responses/'' @ replace ''#/responses/'' ''#/components/responses/'' (?p (?d r))"
    by (rule replace_match) simp
  ultimately show ?thesis
    by (simp add: rewrite_text_def)
qed

lemma rewrite_text_other:
  assumes "\<not> prefix ''#/definitions/'' (c # cs)" "\<not> prefix ''#/parameters/'' (c # cs)"
    "\<not> prefix ''#/responses/'' (c # cs)"
  shows "rewrite_text (c # cs) = c # rewrite_text cs"
proof -
  let ?d = "replace ''#/definitions/'' ''#/components/schemas/''"
  let ?p = "replace ''#/parameters/'' ''#/components/parameters/''"
  have 1: "?d (c # cs) = c # ?d cs"
    using assms(1) by (rule replace_keep)
  have "\<not> prefix ''#/parameters/'' (c # ?d cs)"
    using assms(2) prefix_past_replace [of "CHR ''#''" "''/parameters/''" c "''/definitions/''"]
    by simp
  then have 2: "?p (c # ?d cs) = c # ?p (?d cs)"
    by (rule replace_keep)
  have "\<not> prefix ''#/responses/'' (c # ?d cs)"
    using assms(3) prefix_past_replace [of "CHR ''#''" "''/responses/''" c "''/definitions/''"]
    by simp
  then have "\<not> prefix ''#/responses/'' (c # ?p (?d cs))"
    using prefix_past_replace [of "CHR ''#''" "''/responses/''" c "''/parameters/''"]
    by simp
  then have 3: "replace ''#/responses/'' ''#/components/responses/'' (c # ?p (?d cs))
     = c # replace ''#/responses/'' ''#/components/responses/'' (?p (?d cs))"
    by (rule replace_keep)
  from 1 2 3 show ?thesis by (simp add: rewrite_text_def)
qed

lemma apply_legacy_rules: "apply_rules legacy_rules s = rewrite_text s"
  by (simp add: apply_rules_def legacy_rules_def rewrite_text_def)

lemma legacy_rules_commute:
  assumes "x \<in> set legacy_rules" "y \<in> set legacy_rules"
  shows "(\<lambda>(old, new). replace old new) x \<circ> (\<lambda>(old, new). replace old new) y
       = (\<lambda>(old, new). replace old new) y \<circ> (\<lambda>(old, new). replace old new) x"
proof -
  note c = replace_commute [where m = "CHR ''#''"]
  have dp: "replace ''#/parameters/'' ''#/components/parameters/'' (replace ''#/definitions/'' ''#/components/schemas/'' s)
      = replace ''#/definitions/'' ''#/components/schemas/'' (replace ''#/parameters/'' ''#/components/parameters/'' s)" for s
    using c [of "''/definitions/''" "''/components/schemas/''" "''/parameters/''" "''/components/parameters/''" s]
    by simp
  have dr: "replace ''#/responses/'' ''#/components/responses/'' (replace ''#/definitions/'' ''#/components/schemas/'' s)
      = replace ''#/definitions/'' ''#/components/schemas/'' (replace ''#/responses/'' ''#/components/responses/'' s)" for s
    using c [of "''/definitions/''" "''/components/schemas/''" "''/responses/''" "''/components/responses/''" s]
    by simp
  have pr: "replace ''#/responses/'' ''#/components/responses/'' (replace ''#/parameters/'' ''#/components/parameters/'' s)
      = replace ''#/parameters/'' ''#/components/parameters/'' (replace ''#/responses/'' ''#/components/responses/'' s)" for s
    using c [of "''/parameters/''" "''/components/parameters/''" "''/responses/''" "''/components/responses/''" s]
    by simp
  from assms show ?thesis
    by (auto simp: legacy_rules_def fun_eq_iff dp dr pr)
qed

lemma apply_rules_permuted:
  assumes "mset rules = mset legacy_rules"
  shows "apply_rules rules s = rewrite_text s"
proof -
  have "fold (\<lambda>(old, new). replace old new) legacy_rules
      = fold (\<lambda>(old, new). replace old new) rules"
    using legacy_rules_commute assms [symmetric] by (rule fold_multiset_equiv)
  then show ?thesis
    using apply_legacy_rules [of s] by (simp add: apply_rules_def)
qed

lemma rewrite_text_absent:
  assumes "\<forall>p \<in> set legacy_prefixes. \<not> sublist p s"
  shows "rewrite_text s = s"
  using assms by (simp add: rewrite_text_def legacy_prefixes_def replace_absent)

lemma rewrite_text_clean:
  assumes "p \<in> set legacy_prefixes"
  shows "\<not> sublist p (rewrite_text s)"
proof -
  note r = sublist_replace [where m = "CHR ''#''"]
  let ?d = "replace ''#/definitions/'' ''#/components/schemas/''"
  let ?p = "replace ''#/parameters/'' ''#/components/parameters/''"
  let ?r = "replace ''#/responses/'' ''#/components/responses/''"
  have d1: "\<not> sublist ''#/definitions/'' (?d t)" for t
    using r [of "''/definitions/''" "''/components/schemas/''" "''/definitions/''" t] by auto
  have d2: "sublist ''#/definitions/'' (?p t) \<Longrightarrow> sublist ''#/definitions/'' t" for t
    using r [of "''/definitions/''" "''/components/parameters/''" "''/parameters/''" t] by auto
  have d3: "sublist ''#/definitions/'' (?r t) \<Longrightarrow> sublist ''#/definitions/'' t" for t
    using r [of "''/definitions/''" "''/components/responses/''" "''/responses/''" t] by auto
  have p2: "\<not> sublist ''#/parameters/'' (?p t)" for t
    using r [of "''/parameters/''" "''/components/parameters/''" "''/parameters/''" t] by auto
  have p3: "sublist ''#/parameters/'' (?r t) \<Longrightarrow> sublist ''#/parameters/'' t" for t
    using r [of "''/parameters/''" "''/components/responses/''" "''/responses/''" t] by auto
  have r3: "\<not> sublist ''#/responses/'' (?r t)" for t
    using r [of "''/responses/''" "''/components/responses/''" "''/responses/''" t] by auto
  from assms consider "p = ''#/definitions/''" | "p = ''#/parameters/''" | "p = ''#/responses/''"
    by (auto simp: legacy_prefixes_def)
  then show ?thesis
  proof cases
    case 1
    with d1 d2 d3 show ?thesis unfolding rewrite_text_def by blast
  next
    case 2
    with p2 p3 show ?thesis unfolding rewrite_text_def by blast
  next
    case 3
    with r3 show ?thesis unfolding rewrite_text_def by blast
  qed
qed

section \<open>The traversal and the references of a document\<close>

lemma convert_ref_cases:
  assumes "convert_ref r = Inr r'"
  obtains (falsy) "\<not> truthy r" "r' = r"
        | (str) s where "r = JStr s" "s \<noteq> []" "r' = JStr (rewrite_text s)"
  using assms by (cases r) (auto simp: convert_ref_def rewrite_text_def split: if_splits)

lemma falsy_leaf:
  assumes "\<not> truthy r"
  shows "convert_schema_refs r = Inr r" "ref_values r = []" "\<not> bad_ref r"
  using assms by (cases r; simp)+

lemma convert_ref_leaf:
  assumes "convert_ref r = Inr r'"
  shows "convert_schema_refs r' = Inr r'" "ref_values r' = []" "ref_values r = []"
    "\<not> bad_ref r'" "\<not> bad_ref r"
  using assms by (cases rule: convert_ref_cases; simp add: falsy_leaf)+


lemma ref_values_d_dict_set:
  "map_of d k = Some r \<Longrightarrow> ref_values r = [] \<Longrightarrow> ref_values r' = [] \<Longrightarrow>
   ref_values_d (dict_set d k r') = ref_values_d d"
  by (induction d) (auto split: if_splits)


lemma csr_values_map_of:
  "csr_values d = Inr d' \<Longrightarrow> map_of d k = Some v \<Longrightarrow>
   \<exists>v'. map_of d' k = Some v' \<and> convert_schema_refs v = Inr v'"
  by (induction d arbitrary: d') (auto split: sum.splits if_splits)

lemma csr_values_map_of_None:
  "csr_values d = Inr d' \<Longrightarrow> map_of d k = None \<Longrightarrow> map_of d' k = None"
  by (induction d arbitrary: d') (auto split: sum.splits if_splits)

lemma csr_refs:
  "convert_schema_refs j = Inr j' \<Longrightarrow>
     list_all2 (\<lambda>v v'. convert_ref v = Inr v') (ref_values j) (ref_values j')"
  "csr_values d = Inr d' \<Longrightarrow>
     list_all2 (\<lambda>v v'. convert_ref v = Inr v') (ref_values_d d) (ref_values_d d')"
  "csr_items xs = Inr xs' \<Longrightarrow>
     list_all2 (\<lambda>v v'. convert_ref v = Inr v') (ref_values_l xs) (ref_values_l xs')"
proof (induction j and d and xs arbitrary: j' and d' and xs'
    rule: convert_schema_refs_csr_values_csr_items.induct)
  case (1 obj)
  show ?case
  proof (cases "map_of obj ''$ref''")
    case None
    with "1.prems" obtain obj'' where o: "csr_values obj = Inr obj''" "j' = JDict obj''"
      by (auto split: sum.splits)
    have "(case map_of obj ''$ref'' of None \<Rightarrow> Inr obj
           | Some r \<Rightarrow> (case convert_ref r of Inl x \<Rightarrow> Inl x
               | Inr r' \<Rightarrow> Inr (dict_set obj ''$ref'' r'))) = Inr obj"
      using None by simp
    from "1.IH" [OF this o(1)] have
      "list_all2 (\<lambda>v v'. convert_ref v = Inr v') (ref_values_d obj) (ref_values_d obj'')" .
    moreover from csr_values_map_of_None [OF o(1) None] have "map_of obj'' ''$ref'' = None" .
    ultimately show ?thesis using None o by simp
  next
    case (Some r)
    with "1.prems" obtain r' obj'' where r': "convert_ref r = Inr r'"
      and o: "csr_values (dict_set obj ''$ref'' r') = Inr obj''" "j' = JDict obj''"
      by (auto split: sum.splits)
    let ?obj' = "dict_set obj ''$ref'' r'"
    have "(case map_of obj ''$ref'' of None \<Rightarrow> Inr obj
           | Some r \<Rightarrow> (case convert_ref r of Inl x \<Rightarrow> Inl x
               | Inr r' \<Rightarrow> Inr (dict_set obj ''$ref'' r'))) = Inr ?obj'"
      using Some r' by simp
    from "1.IH" [OF this o(1)] have
      "list_all2 (\<lambda>v v'. convert_ref v = Inr v') (ref_values_d ?obj') (ref_values_d obj'')" .
    then have a: "list_all2 (\<lambda>v v'. convert_ref v = Inr v') (ref_values_d obj) (ref_values_d obj'')"
      using ref_values_d_dict_set [OF Some] convert_ref_leaf [OF r'] by simp
    have "map_of ?obj' ''$ref'' = Some r'" by (simp add: map_of_dict_set)
    from csr_values_map_of [OF o(1) this] convert_ref_leaf(1) [OF r']
    have "map_of obj'' ''$ref'' = Some r'" by simp
    with a Some r' o show ?thesis by simp
  qed
next
  case (2 xs)
  then show ?case by (auto split: sum.splits)
next
  case (5 k v d)
  then show ?case by (auto split: sum.splits intro!: list_all2_appendI)
next
  case (7 x xs)
  then show ?case by (auto split: sum.splits intro!: list_all2_appendI)
qed auto






lemma convert_ref_clean:
  assumes "convert_ref v = Inr (JStr s)" and "p \<in> set legacy_prefixes"
  shows "\<not> sublist p s"
  using assms(1)
proof (cases rule: convert_ref_cases)
  case falsy
  then have "s = []" by auto
  with assms(2) show ?thesis by (auto simp: legacy_prefixes_def)
next
  case (str s0)
  with assms(2) show ?thesis by (simp add: rewrite_text_clean)
qed

lemma blank_refs_dict_set:
  "blank_refs_d (dict_set d ''$ref'' v) = blank_refs_d d @ (if has_key d ''$ref'' then [] else [(''$ref'', JNull)])"
  by (induction d) auto

lemma csr_blank:
  "convert_schema_refs j = Inr j' \<Longrightarrow> blank_refs j' = blank_refs j"
  "csr_values d = Inr d' \<Longrightarrow> blank_refs_d d' = blank_refs_d d"
  "csr_items xs = Inr xs' \<Longrightarrow> blank_refs_l xs' = blank_refs_l xs"
proof (induction j and d and xs arbitrary: j' and d' and xs'
    rule: convert_schema_refs_csr_values_csr_items.induct)
  case (1 obj)
  show ?case
  proof (cases "map_of obj ''$ref''")
    case None
    then have eq: "(case map_of obj ''$ref'' of None \<Rightarrow> Inr obj
           | Some r \<Rightarrow> (case convert_ref r of Inl x \<Rightarrow> Inl x
               | Inr r' \<Rightarrow> Inr (dict_set obj ''$ref'' r'))) = Inr obj"
      by simp
    from "1.prems" None obtain od where od: "csr_values obj = Inr od" "j' = JDict od"
      by (auto split: sum.splits)
    from "1.IH" [OF eq od(1)] od(2) show ?thesis by simp
  next
    case (Some r)
    with "1.prems" obtain r' od where r': "convert_ref r = Inr r'"
      and od: "csr_values (dict_set obj ''$ref'' r') = Inr od" "j' = JDict od"
      by (auto split: sum.splits)
    have eq: "(case map_of obj ''$ref'' of None \<Rightarrow> Inr obj
           | Some r \<Rightarrow> (case convert_ref r of Inl x \<Rightarrow> Inl x
               | Inr r' \<Rightarrow> Inr (dict_set obj ''$ref'' r'))) = Inr (dict_set obj ''$ref'' r')"
      using Some r' by simp
    from Some have "has_key obj ''$ref''" by (simp add: has_key_map_of)
    with "1.IH" [OF eq od(1)] od(2) show ?thesis by (simp add: blank_refs_dict_set)
  qed
qed (auto split: sum.splits)

section \<open>The assembled mapping\<close>

lemma dict_set_same: "map_of d k = Some v \<Longrightarrow> dict_set d k v = d"
  by (induction d) (auto split: if_splits)

lemma csr_unchanged:
  "\<forall>r \<in> set (ref_values j). convert_ref r = Inr r \<Longrightarrow> convert_schema_refs j = Inr j"
  "\<forall>r \<in> set (ref_values_d d). convert_ref r = Inr r \<Longrightarrow> csr_values d = Inr d"
  "\<forall>r \<in> set (ref_values_l xs). convert_ref r = Inr r \<Longrightarrow> csr_items xs = Inr xs"
proof (induction j and d and xs
    rule: convert_schema_refs_csr_values_csr_items.induct)
  case (1 obj)
  show ?case
  proof (cases "map_of obj ''$ref''")
    case None
    then have "(case map_of obj ''$ref'' of None \<Rightarrow> Inr obj
           | Some r \<Rightarrow> (case convert_ref r of Inl x \<Rightarrow> Inl x
               | Inr r' \<Rightarrow> Inr (dict_set obj ''$ref'' r'))) = Inr obj"
      by simp
    from "1.IH" [OF this] "1.prems" None show ?thesis by simp
  next
    case (Some r)
    with "1.prems" have r: "convert_ref r = Inr r" by simp
    have "(case map_of obj ''$ref'' of None \<Rightarrow> Inr obj
           | Some r \<Rightarrow> (case convert_ref r of Inl x \<Rightarrow> Inl x
               | Inr r' \<Rightarrow> Inr (dict_set obj ''$ref'' r'))) = Inr obj"
      using Some r by (simp add: dict_set_same)
    from "1.IH" [OF this] "1.prems" Some r show ?thesis by (simp add: dict_set_same)
  qed
qed simp_all

lemma copy_extensions_other:
  "\<not> prefix ''x-'' k \<Longrightarrow> map_of (copy_extensions d t) k = map_of t k"
  by (induction d arbitrary: t) (auto simp: map_of_dict_set)

lemma copy_extensions_ext:
  "distinct (map fst d) \<Longrightarrow> prefix ''x-'' k \<Longrightarrow>
   map_of (copy_extensions d t) k = (if has_key d k then map_of d k else map_of t k)"
proof (induction d arbitrary: t)
  case Nil
  then show ?case by simp
next
  case (Cons kv d)
  obtain k0 v0 where kv: "kv = (k0, v0)" by (cases kv)
  with Cons.prems have "distinct (map fst d)" "\<not> has_key d k0"
    by (simp_all add: has_key_def)
  with Cons.IH [of "if prefix ''x-'' k0 then dict_set t k0 v0 else t"] Cons.prems(2) kv
  show ?case by (auto simp: map_of_dict_set)
qed

lemma keys_copy_extensions:
  "distinct (map fst d) \<Longrightarrow> \<forall>k \<in> set (map fst d). prefix ''x-'' k \<longrightarrow> \<not> has_key t k \<Longrightarrow>
   map fst (copy_extensions d t) = map fst t @ filter (prefix ''x-'') (map fst d)"
proof (induction d arbitrary: t)
  case Nil
  then show ?case by simp
next
  case (Cons kv d)
  obtain k0 v0 where kv: "kv = (k0, v0)" by (cases kv)
  let ?t = "if prefix ''x-'' k0 then dict_set t k0 v0 else t"
  from Cons.prems kv have d: "distinct (map fst d)" and k0: "k0 \<notin> set (map fst d)" by simp_all
  have "\<forall>k \<in> set (map fst d). prefix ''x-'' k \<longrightarrow> \<not> has_key ?t k"
    using Cons.prems(2) k0 kv by auto
  from Cons.IH [OF d this] Cons.prems(2) kv show ?case
    by (auto simp: keys_dict_set)
qed

lemma has_key_copy_extensions_other:
  "\<not> prefix ''x-'' k \<Longrightarrow> has_key (copy_extensions d t) k = has_key t k"
  by (simp add: has_key_map_of copy_extensions_other)

lemma map_of_copy_key:
  "map_of (copy_key spec k k' t) x =
     (if x = k' \<and> has_key spec k then map_of spec k else map_of t x)"
  by (auto simp: copy_key_def map_of_dict_set has_key_map_of split: option.splits)

lemma keys_copy_key:
  "map fst (copy_key spec k k' t) =
     (if has_key spec k \<and> \<not> has_key t k' then map fst t @ [k'] else map fst t)"
  by (auto simp: copy_key_def keys_dict_set has_key_map_of split: option.splits)

text \<open>The steps of \<open>build_spec\<close> up to the components, and the whole of it.\<close>

lemma build_spec_shape:
  assumes "build_spec fmt d = Inr ns"
  obtains servers t1 t2 t3 where "build_servers fmt d = Inr servers"
    and "t1 = copy_key d ''security'' ''security''
            (copy_key d ''tags'' ''tags''
              (copy_key d ''externalDocs'' ''externalDocs''
                 [(''openapi'', JStr ''3.0.0''),
                  (''info'', dict_get d ''info'' default_info)]))"
    and "t2 = (if servers \<noteq> [] then dict_set t1 ''servers'' (JList servers) else t1)"
    and "t3 = (if build_components d \<noteq> []
               then dict_set t2 ''components'' (JDict (build_components d)) else t2)"
    and "ns = copy_extensions d (copy_key d ''paths'' ''paths'' t3)"
  using assms by (cases "build_servers fmt d") (auto simp: build_spec_def Let_def)

lemma build_spec_lookup:
  assumes "build_spec fmt d = Inr ns" and "\<not> prefix ''x-'' k"
  shows "map_of ns k =
     (if k = ''openapi'' then Some (JStr ''3.0.0'')
      else if k = ''info'' then Some (dict_get d ''info'' default_info)
      else if k \<in> {''externalDocs'', ''tags'', ''security'', ''paths''} then map_of d k
      else if k = ''servers'' then
        (case build_servers fmt d of
           Inr s \<Rightarrow> if s \<noteq> [] then Some (JList s) else None
         | Inl e \<Rightarrow> None)
      else if k = ''components'' then
        (if build_components d \<noteq> [] then Some (JDict (build_components d)) else None)
      else None)"
proof -
  from assms(1) obtain servers t1 t2 t3 where s: "build_servers fmt d = Inr servers"
    and t1: "t1 = copy_key d ''security'' ''security''
            (copy_key d ''tags'' ''tags''
              (copy_key d ''externalDocs'' ''externalDocs''
                 [(''openapi'', JStr ''3.0.0''),
                  (''info'', dict_get d ''info'' default_info)]))"
    and t2: "t2 = (if servers \<noteq> [] then dict_set t1 ''servers'' (JList servers) else t1)"
    and t3: "t3 = (if build_components d \<noteq> []
               then dict_set t2 ''components'' (JDict (build_components d)) else t2)"
    and ns: "ns = copy_extensions d (copy_key d ''paths'' ''paths'' t3)"
    by (rule build_spec_shape)
  have 1: "map_of t1 k =
     (if k = ''openapi'' then Some (JStr ''3.0.0'')
      else if k = ''info'' then Some (dict_get d ''info'' default_info)
      else if k \<in> {''externalDocs'', ''tags'', ''security''} then map_of d k
      else None)"
    unfolding t1 by (simp add: map_of_copy_key has_key_map_of)
  have 2: "map_of t2 k = (if k = ''servers'' \<and> servers \<noteq> [] then Some (JList servers)
      else map_of t1 k)"
    unfolding t2 by (simp add: map_of_dict_set)
  have 3: "map_of t3 k = (if k = ''components'' \<and> build_components d \<noteq> []
      then Some (JDict (build_components d)) else map_of t2 k)"
    unfolding t3 by (simp add: map_of_dict_set)
  have 4: "map_of ns k = (if k = ''paths'' \<and> has_key d ''paths'' then map_of d ''paths''
      else map_of t3 k)"
    unfolding ns using assms(2) by (simp add: copy_extensions_other map_of_copy_key)
  show ?thesis
    unfolding 4 3 2 1 using s by (auto simp: has_key_map_of)
qed

lemma build_spec_keys:
  assumes "build_spec fmt d = Inr ns" and "distinct (map fst d)"
  shows "map fst ns = [''openapi'', ''info'']
           @ filter (has_key d) [''externalDocs'', ''tags'', ''security'']
           @ filter (has_key ns) [''servers'', ''components'']
           @ filter (has_key d) [''paths'']
           @ filter (prefix ''x-'') (map fst d)"
proof -
  from assms(1) obtain servers t1 t2 t3 where s: "build_servers fmt d = Inr servers"
    and t1: "t1 = copy_key d ''security'' ''security''
            (copy_key d ''tags'' ''tags''
              (copy_key d ''externalDocs'' ''externalDocs''
                 [(''openapi'', JStr ''3.0.0''),
                  (''info'', dict_get d ''info'' default_info)]))"
    and t2: "t2 = (if servers \<noteq> [] then dict_set t1 ''servers'' (JList servers) else t1)"
    and t3: "t3 = (if build_components d \<noteq> []
               then dict_set t2 ''components'' (JDict (build_components d)) else t2)"
    and ns: "ns = copy_extensions d (copy_key d ''paths'' ''paths'' t3)"
    by (rule build_spec_shape)
  let ?t4 = "copy_key d ''paths'' ''paths'' t3"
  let ?s = "if servers \<noteq> [] then [''servers''] else []"
  let ?c = "if build_components d \<noteq> [] then [''components''] else []"
  have k1: "map fst t1 = [''openapi'', ''info'']
           @ filter (has_key d) [''externalDocs'', ''tags'', ''security'']"
    unfolding t1 by (simp add: keys_copy_key has_key_copy_key)
  have h1: "has_key t1 k \<longleftrightarrow> k \<in> set (map fst t1)" for k
    by (simp only: has_key_def)
  have k2: "map fst t2 = map fst t1 @ ?s"
    unfolding t2 by (simp add: keys_dict_set h1 k1)
  have h2: "has_key t2 k \<longleftrightarrow> k \<in> set (map fst t2)" for k
    by (simp only: has_key_def)
  have k3: "map fst t3 = map fst t2 @ ?c"
    unfolding t3 by (simp add: keys_dict_set h2 k2 k1)
  have h3: "has_key t3 k \<longleftrightarrow> k \<in> set (map fst t3)" for k
    by (simp only: has_key_def)
  have k4: "map fst ?t4 = map fst t3 @ filter (has_key d) [''paths'']"
    by (simp add: keys_copy_key h3 k3 k2 k1)
  have h4: "has_key ?t4 k \<longleftrightarrow> k \<in> set (map fst ?t4)" for k
    by (simp only: has_key_def)
  have nox: "\<forall>k \<in> set (map fst d). prefix ''x-'' k \<longrightarrow> \<not> has_key ?t4 k"
    unfolding h4 k4 k3 k2 k1 by auto
  have k5: "map fst ns = map fst ?t4 @ filter (prefix ''x-'') (map fst d)"
    unfolding ns using assms(2) nox by (rule keys_copy_extensions)
  have s1: "has_key ns ''servers'' \<longleftrightarrow> servers \<noteq> []"
    unfolding ns by (simp add: has_key_copy_extensions_other has_key_copy_key h3 k3 k2 k1)
  have s2: "has_key ns ''components'' \<longleftrightarrow> build_components d \<noteq> []"
    unfolding ns by (simp add: has_key_copy_extensions_other has_key_copy_key h3 k3 k2 k1)
  show ?thesis
    unfolding k5 k4 k3 k2 k1 by (simp add: s1 s2)
qed

lemma convert_spec_out:
  assumes "is_legacy (JDict d)" and "convert_spec fmt (JDict d) = Inr out"
  obtains ns od where "build_spec fmt d = Inr ns" and "csr_values ns = Inr od"
    and "out = JDict od" and "map fst od = map fst ns"
proof -
  from assms obtain ns where ns: "build_spec fmt d = Inr ns"
    and out: "convert_schema_refs (JDict ns) = Inr out"
    by (auto simp: is_legacy_def convert_spec_def split: sum.splits)
  have "map_of ns ''$ref'' = None"
    using build_spec_lookup [OF ns, of "''$ref''"] by simp
  with out obtain od where od: "csr_values ns = Inr od" "out = JDict od"
    by (auto split: sum.splits)
  from csr_values_keys [OF od(1)] ns od that show ?thesis by blast
qed

lemma ref_values_servers [simp]:
  "ref_values_l (map (server_entry fmt host base_path) ss) = []"
  by (induction ss) (simp_all add: server_entry_def)

lemma csr_servers:
  "convert_schema_refs (JList (map (server_entry fmt host base_path) ss))
     = Inr (JList (map (server_entry fmt host base_path) ss))"
  by (rule csr_unchanged) simp

lemma build_servers_iterate:
  assumes "iterate (dict_get d ''schemes'' (JList [JStr ''http''])) = Inr ss"
  shows "build_servers fmt d =
     Inr (if has_key d ''host'' \<or> has_key d ''basePath'' \<or> has_key d ''schemes''
          then map (server_entry fmt (dict_get d ''host'' (JStr ''localhost''))
                      (dict_get d ''basePath'' (JStr []))) ss
          else [])"
  using assms by (simp add: build_servers_def Let_def)

lemma build_components_keys:
  "map fst (build_components d) = map snd (filter (\<lambda>(k, k'). has_key d k) component_keys)"
  by (simp add: build_components_def component_keys_def keys_copy_key has_key_copy_key)

lemma not_has_key_map_of: "\<not> has_key d k \<Longrightarrow> map_of d k = None"
  by (simp add: has_key_map_of)

lemma build_components_lookup:
  assumes "(k, k') \<in> set component_keys"
  shows "map_of (build_components d) k' = map_of d k"
proof -
  have "map_of (build_components d) ''schemas'' = map_of d ''definitions''"
    by (simp add: build_components_def map_of_copy_key not_has_key_map_of)
  moreover have "map_of (build_components d) ''parameters'' = map_of d ''parameters''"
    by (simp add: build_components_def map_of_copy_key not_has_key_map_of)
  moreover have "map_of (build_components d) ''responses'' = map_of d ''responses''"
    by (simp add: build_components_def map_of_copy_key not_has_key_map_of)
  moreover have "map_of (build_components d) ''securitySchemes''
      = map_of d ''securityDefinitions''"
    by (simp add: build_components_def map_of_copy_key not_has_key_map_of)
  ultimately show ?thesis using assms by (auto simp: component_keys_def)
qed

lemma build_components_empty:
  "build_components d \<noteq> [] \<longleftrightarrow> (\<exists>(k, k') \<in> set component_keys. has_key d k)"
proof -
  have "build_components d \<noteq> [] \<longleftrightarrow> map fst (build_components d) \<noteq> []" by simp
  also have "\<dots> \<longleftrightarrow> (\<exists>(k, k') \<in> set component_keys. has_key d k)"
    unfolding build_components_keys by (auto simp: component_keys_def)
  finally show ?thesis .
qed

lemma build_components_no_ref: "map_of (build_components d) ''$ref'' = None"
proof -
  have "''$ref'' \<notin> set (map fst (build_components d))"
    unfolding build_components_keys by (auto simp: component_keys_def)
  then show ?thesis by (simp add: map_of_eq_None_iff)
qed

section \<open>One file, and the loop over the files\<close>











section \<open>The traversal on a tree in the store\<close>

lemma deref_update:
  "deref (h[a := ob]) x = (if x = a \<and> a < length h then Some ob else deref h x)"
  by (auto simp: deref_def)

lemma deref_append: "a < length h \<Longrightarrow> deref (h @ ys) a = deref h a"
  by (simp add: deref_def nth_append)

lemma deref_alloc: "deref (h @ [ob]) (length h) = Some ob"
  by (simp add: deref_def)

lemma deref_bound: "deref h a = Some ob \<Longrightarrow> a < length h"
  by (simp add: deref_def split: if_splits)

lemma sits_l_length: "sits_l h ls xs \<Longrightarrow> length ls = length xs"
  by (induction ls arbitrary: xs) (auto split: list.splits)

lemma sits_frame:
  "\<forall>a \<in> set (addrs l). deref h' a = deref h a \<Longrightarrow> sits h l j \<Longrightarrow> sits h' l j"
  "\<forall>a \<in> set (addrs_l ls). deref h' a = deref h a \<Longrightarrow> sits_l h ls xs \<Longrightarrow> sits_l h' ls xs"
  by (induction l and ls arbitrary: j and xs rule: addrs_addrs_l.induct)
    (auto split: json.splits list.splits)

lemma sits_bound:
  "sits h l j \<Longrightarrow> a \<in> set (addrs l) \<Longrightarrow> a < length h"
  "sits_l h ls xs \<Longrightarrow> a \<in> set (addrs_l ls) \<Longrightarrow> a < length h"
  by (induction l and ls arbitrary: j and xs rule: addrs_addrs_l.induct)
    (auto split: json.splits list.splits dest: deref_bound)

lemma sits_extend:
  "sits h l j \<Longrightarrow> sits (h @ ys) l j"
  "sits_l h ls xs \<Longrightarrow> sits_l (h @ ys) ls xs"
proof -
  show "sits h l j \<Longrightarrow> sits (h @ ys) l j"
    using sits_bound(1) [of h l j] sits_frame(1) [of l "h @ ys" h j]
    by (simp add: deref_append)
  show "sits_l h ls xs \<Longrightarrow> sits_l (h @ ys) ls xs"
    using sits_bound(2) [of h ls xs] sits_frame(2) [of ls "h @ ys" h xs]
    by (simp add: deref_append)
qed

lemma roots_Nil_iff: "length ls = length xs \<Longrightarrow> roots ls xs = [] \<longleftrightarrow> xs = []"
  by (cases ls; cases xs) auto

lemma length_roots: "length ls = length xs \<Longrightarrow> length (roots ls xs) = length xs"
  by (induction ls xs rule: roots.induct) auto

lemma truthy_sits: "sits h l j \<Longrightarrow> truthy_h h (root l j) = truthy j"
  by (cases l; cases j) (auto dest: sits_l_length simp: roots_Nil_iff)

lemma sits_str: "sits h l (JStr s) \<Longrightarrow> l = Leaf"
  by (cases l) auto

lemma convert_ref_sits:
  assumes "sits h l r"
  shows "convert_ref_h h (root l r)
       = (case convert_ref r of Inl e \<Rightarrow> Inl e | Inr r' \<Rightarrow> Inr (root l r'))"
    and "convert_ref r = Inr r' \<Longrightarrow> sits h l r'"
proof -
  have t: "truthy_h h (root l r) = truthy r" using assms by (rule truthy_sits)
  show "convert_ref_h h (root l r)
       = (case convert_ref r of Inl e \<Rightarrow> Inl e | Inr r' \<Rightarrow> Inr (root l r'))"
    using assms t by (cases l; cases r) (auto simp: convert_ref_h_def convert_ref_def)
  show "convert_ref r = Inr r' \<Longrightarrow> sits h l r'"
    using assms by (cases l; cases r) (auto simp: convert_ref_def split: if_splits)
qed

lemma height_pos: "0 < height j"
  by (cases j) auto

lemma height_convert_ref: "convert_ref r = Inr r' \<Longrightarrow> height r' \<le> height r"
  using height_pos [of r]
  by (cases r) (auto simp: convert_ref_def split: if_splits)

lemma height_d_dict_set:
  "map_of d k = Some r \<Longrightarrow> height r' \<le> height r \<Longrightarrow> height_d (dict_set d k r') \<le> height_d d"
  by (induction d) (auto split: if_splits)

lemma map_snd_zip_roots:
  "length ls = length d \<Longrightarrow> map snd (zip (map fst d) (roots ls (map snd d))) = roots ls (map snd d)"
  by (simp add: length_roots)

lemma map_of_zip_roots_None:
  "length ls = length d \<Longrightarrow> map_of d k = None \<Longrightarrow>
   map_of (zip (map fst d) (roots ls (map snd d))) k = None"
  by (induction ls d rule: list_induct2) (auto split: if_splits)

text \<open>A reference of a dict whose members have layouts: its value, its layout, and the
  dict after the assignment of a value with the same layout.\<close>

lemma ref_step:
  assumes "sits_l h ls (map snd d)" and "map_of d k = Some r"
  shows "\<exists>l. map_of (zip (map fst d) (roots ls (map snd d))) k = Some (root l r)
      \<and> sits h l r
      \<and> (\<forall>r'. sits h l r' \<longrightarrow>
            zip (map fst (dict_set d k r')) (roots ls (map snd (dict_set d k r')))
              = dict_set (zip (map fst d) (roots ls (map snd d))) k (root l r')
            \<and> sits_l h ls (map snd (dict_set d k r')))"
  using assms
proof (induction d arbitrary: ls)
  case Nil
  then show ?case by simp
next
  case (Cons kv d)
  obtain k0 x0 where kv: "kv = (k0, x0)" by (cases kv)
  from Cons.prems(1) kv obtain l0 ls' where ls: "ls = l0 # ls'"
    and s0: "sits h l0 x0" and s': "sits_l h ls' (map snd d)"
    by (cases ls) auto
  show ?case
  proof (cases "k0 = k")
    case True
    with Cons.prems(2) kv have "r = x0" by simp
    with True kv ls s0 s' show ?thesis by (auto intro!: exI [of _ l0])
  next
    case False
    with Cons.prems(2) kv have "map_of d k = Some r" by simp
    from Cons.IH [OF s' this] obtain l where l:
      "map_of (zip (map fst d) (roots ls' (map snd d))) k = Some (root l r)"
      "sits h l r"
      "\<forall>r'. sits h l r' \<longrightarrow>
            zip (map fst (dict_set d k r')) (roots ls' (map snd (dict_set d k r')))
              = dict_set (zip (map fst d) (roots ls' (map snd d))) k (root l r')
            \<and> sits_l h ls' (map snd (dict_set d k r'))"
      by blast
    with False kv ls s0 show ?thesis by (auto intro!: exI [of _ l])
  qed
qed

lemma csr_values_items:
  "csr_values d = (case csr_items (map snd d) of
                     Inl e \<Rightarrow> Inl e
                   | Inr xs \<Rightarrow> Inr (zip (map fst d) xs))"
  by (induction d) (auto split: sum.splits)

lemma height_d_l: "height_d d = height_l (map snd d)"
  by (induction d) auto

lemma csr_h_leaf:
  assumes "sits h Leaf j" and "height j \<le> n"
  shows "refines h Leaf j (convert_schema_refs_h n (root Leaf j) h) (convert_schema_refs j)"
proof -
  from assms(2) height_pos [of j] obtain m where n: "n = Suc m" by (cases n) auto
  from assms(1) show ?thesis unfolding n refines_def by (cases j) auto
qed

lemma csr_h_scalar:
  assumes "sits h l j" and "height j \<le> n" and "\<forall>x. j \<noteq> JDict x" and "\<forall>x. j \<noteq> JList x"
  shows "refines h l j (convert_schema_refs_h n (root l j) h) (convert_schema_refs j)"
proof -
  from assms(1,3,4) have "l = Leaf" by (cases l; cases j) auto
  with assms(1,2) show ?thesis using csr_h_leaf by simp
qed

lemma refines_l_Cons:
  assumes x: "refines h l x (convert_schema_refs_h n (root l x) h) (convert_schema_refs x)"
    and xs: "\<And>x' h1. convert_schema_refs x = Inr x' \<Longrightarrow> sits_l h1 ls xs \<Longrightarrow>
                refines_l h1 ls xs (csr_each_h n (roots ls xs) h1) (csr_items xs)"
    and s: "sits_l h ls xs"
    and dist: "distinct (addrs l @ addrs_l ls)"
  shows "refines_l h (l # ls) (x # xs) (csr_each_h n (roots (l # ls) (x # xs)) h)
           (csr_items (x # xs))"
proof (cases "convert_schema_refs x")
  case (Inl e)
  with x show ?thesis by (simp add: refines_def refines_l_def)
next
  case (Inr x')
  with x obtain h1 where h1: "convert_schema_refs_h n (root l x) h = Inr h1"
    "sits h1 l x'" "root l x' = root l x" "length h1 = length h"
    "\<forall>a. a \<notin> set (addrs l) \<longrightarrow> deref h1 a = deref h a"
    by (auto simp: refines_def)
  from dist have disj: "set (addrs l) \<inter> set (addrs_l ls) = {}" by simp
  have "\<forall>a \<in> set (addrs_l ls). deref h1 a = deref h a" using h1(5) disj by auto
  from sits_frame(2) [OF this s] have s1: "sits_l h1 ls xs" .
  note r = xs [OF Inr s1]
  show ?thesis
  proof (cases "csr_items xs")
    case (Inl e)
    with r Inr h1 show ?thesis by (simp add: refines_l_def)
  next
    case Inr2: (Inr xs')
    with r obtain h2 where h2: "csr_each_h n (roots ls xs) h1 = Inr h2"
      "sits_l h2 ls xs'" "roots ls xs' = roots ls xs" "length h2 = length h1"
      "\<forall>a. a \<notin> set (addrs_l ls) \<longrightarrow> deref h2 a = deref h1 a"
      by (auto simp: refines_l_def)
    have "\<forall>a \<in> set (addrs l). deref h2 a = deref h1 a" using h2(5) disj by auto
    from sits_frame(1) [OF this h1(2)] have "sits h2 l x'" .
    with Inr Inr2 h1 h2 show ?thesis by (simp add: refines_l_def)
  qed
qed

lemma zip_keys:
  "length xs = length d \<Longrightarrow> map fst (zip (map fst d) xs) = map fst d"
  "length xs = length d \<Longrightarrow> map snd (zip (map fst d) xs) = xs"
  by simp_all

lemma refines_dict:
  assumes r: "refines_l h1 ls (map snd obj) (csr_each_h m (roots ls (map snd obj)) h1)
                (csr_items (map snd obj))"
    and a: "deref h1 a = Some (ODict (zip (map fst obj) (roots ls (map snd obj))))"
    and s: "sits_l h1 ls (map snd obj)"
    and dist: "a \<notin> set (addrs_l ls)"
    and fr: "length h1 = length h" "\<forall>x. x \<noteq> a \<longrightarrow> deref h1 x = deref h x"
  shows "refines h (Node a ls) j (csr_each_h m (roots ls (map snd obj)) h1)
           (case csr_values obj of Inl e \<Rightarrow> Inl e | Inr obj'' \<Rightarrow> Inr (JDict obj''))"
proof (cases "csr_items (map snd obj)")
  case (Inl e)
  with r show ?thesis by (simp add: refines_def refines_l_def csr_values_items)
next
  case (Inr xs')
  with r obtain h2 where h2: "csr_each_h m (roots ls (map snd obj)) h1 = Inr h2"
    "sits_l h2 ls xs'" "roots ls xs' = roots ls (map snd obj)" "length h2 = length h1"
    "\<forall>a. a \<notin> set (addrs_l ls) \<longrightarrow> deref h2 a = deref h1 a"
    by (auto simp: refines_l_def)
  from sits_l_length [OF h2(2)] sits_l_length [OF s] have len: "length xs' = length obj"
    by simp
  from h2(5) dist a have "deref h2 a = Some (ODict (zip (map fst obj) (roots ls (map snd obj))))"
    by simp
  with h2 len fr Inr show ?thesis
    by (simp add: refines_def csr_values_items)
qed

lemma csr_refines:
  "\<And>h l n. sits h l j \<Longrightarrow> distinct (addrs l) \<Longrightarrow> height j \<le> n \<Longrightarrow>
     refines h l j (convert_schema_refs_h n (root l j) h) (convert_schema_refs j)"
  "\<And>h ls n. sits_l h ls (map snd d) \<Longrightarrow> distinct (addrs_l ls) \<Longrightarrow> height_d d \<le> n \<Longrightarrow>
     refines_l h ls (map snd d) (csr_each_h n (roots ls (map snd d)) h)
       (csr_items (map snd d))"
  "\<And>h ls n. sits_l h ls xs \<Longrightarrow> distinct (addrs_l ls) \<Longrightarrow> height_l xs \<le> n \<Longrightarrow>
     refines_l h ls xs (csr_each_h n (roots ls xs) h) (csr_items xs)"
proof (induction j and d and xs rule: convert_schema_refs_csr_values_csr_items.induct)
  case (1 obj)
  from "1.prems"(1) obtain a ls where l: "l = Node a ls"
    and a: "deref h a = Some (ODict (zip (map fst obj) (roots ls (map snd obj))))"
    and s: "sits_l h ls (map snd obj)"
    by (cases l) auto
  from "1.prems"(2) l have dist: "a \<notin> set (addrs_l ls)" "distinct (addrs_l ls)" by auto
  from "1.prems"(3) obtain m where n: "n = Suc m" and m: "height_d obj \<le> m"
    by (cases n) auto
  have len: "length ls = length obj" using sits_l_length [OF s] by simp
  show ?case
  proof (cases "map_of obj ''$ref''")
    case None
    from map_of_zip_roots_None [OF len None]
    have v: "map_of (zip (map fst obj) (roots ls (map snd obj))) ''$ref'' = None" .
    have eq: "(case map_of obj ''$ref'' of None \<Rightarrow> Inr obj
          | Some r \<Rightarrow> (case convert_ref r of Inl e \<Rightarrow> Inl e
                        | Inr r' \<Rightarrow> Inr (dict_set obj ''$ref'' r'))) = Inr obj"
      using None by simp
    from "1.IH" [OF eq s dist(2) m]
    have r: "refines_l h ls (map snd obj) (csr_each_h m (roots ls (map snd obj)) h)
                (csr_items (map snd obj))" .
    have "refines h (Node a ls) (JDict obj) (csr_each_h m (roots ls (map snd obj)) h)
           (case csr_values obj of Inl e \<Rightarrow> Inl e | Inr obj'' \<Rightarrow> Inr (JDict obj''))"
      by (rule refines_dict [OF r a s dist(1)]) simp_all
    with None v a len show ?thesis unfolding l n
      by (simp add: map_snd_zip_roots)
  next
    case (Some r)
    from ref_step [OF s Some] obtain lr where lr:
      "map_of (zip (map fst obj) (roots ls (map snd obj))) ''$ref'' = Some (root lr r)"
      "sits h lr r"
      "\<forall>r'. sits h lr r' \<longrightarrow>
            zip (map fst (dict_set obj ''$ref'' r')) (roots ls (map snd (dict_set obj ''$ref'' r')))
              = dict_set (zip (map fst obj) (roots ls (map snd obj))) ''$ref'' (root lr r')
            \<and> sits_l h ls (map snd (dict_set obj ''$ref'' r'))"
      by blast
    note cr = convert_ref_sits [OF lr(2)]
    show ?thesis
    proof (cases "convert_ref r")
      case (Inl e)
      with Some lr(1) a cr(1) show ?thesis unfolding l n
        by (simp add: refines_def)
    next
      case (Inr r')
      let ?obj = "dict_set obj ''$ref'' r'"
      let ?h1 = "h[a := ODict (zip (map fst ?obj) (roots ls (map snd ?obj)))]"
      from cr(2) [OF Inr] have sr: "sits h lr r'" .
      with lr(3) have
        z: "zip (map fst ?obj) (roots ls (map snd ?obj))
              = dict_set (zip (map fst obj) (roots ls (map snd obj))) ''$ref'' (root lr r')"
        and s': "sits_l h ls (map snd ?obj)" by auto
      have eq: "(case map_of obj ''$ref'' of None \<Rightarrow> Inr obj
          | Some r \<Rightarrow> (case convert_ref r of Inl e \<Rightarrow> Inl e
                        | Inr r' \<Rightarrow> Inr (dict_set obj ''$ref'' r'))) = Inr ?obj"
        using Some Inr by simp
      have al: "a < length h" using a by (rule deref_bound)
      have "\<forall>x \<in> set (addrs_l ls). deref ?h1 x = deref h x"
        using dist(1) by (auto simp: deref_update)
      from sits_frame(2) [OF this s'] have s1: "sits_l ?h1 ls (map snd ?obj)" .
      from height_d_dict_set [OF Some height_convert_ref [OF Inr]] m
      have m': "height_d ?obj \<le> m" by simp
      from "1.IH" [OF eq s1 dist(2) m']
      have r1: "refines_l ?h1 ls (map snd ?obj) (csr_each_h m (roots ls (map snd ?obj)) ?h1)
                (csr_items (map snd ?obj))" .
      have a1: "deref ?h1 a = Some (ODict (zip (map fst ?obj) (roots ls (map snd ?obj))))"
        using al by (simp add: deref_update)
      have "refines h (Node a ls) (JDict obj) (csr_each_h m (roots ls (map snd ?obj)) ?h1)
           (case csr_values ?obj of Inl e \<Rightarrow> Inl e | Inr obj'' \<Rightarrow> Inr (JDict obj''))"
        by (rule refines_dict [OF r1 a1 s1 dist(1)]) (simp_all add: deref_update)
      moreover have len': "length ls = length ?obj" using sits_l_length [OF s'] by simp
      have ms: "map snd (dict_set (zip (map fst obj) (roots ls (map snd obj))) ''$ref''
                  (root lr r')) = roots ls (map snd ?obj)"
        unfolding z [symmetric] by (rule map_snd_zip_roots [OF len'])
      have "convert_schema_refs_h (Suc m) (VRef a) h
              = csr_each_h m (roots ls (map snd ?obj)) ?h1"
        using lr(1) a cr(1) Inr ms by (simp add: z)
      ultimately show ?thesis using Some Inr unfolding l n
        by simp
    qed
  qed
next
  case (2 xs)
  from "2.prems"(1) obtain a ls where l: "l = Node a ls"
    and a: "deref h a = Some (OList (roots ls xs))"
    and s: "sits_l h ls xs"
    by (cases l) auto
  from "2.prems"(2) l have dist: "a \<notin> set (addrs_l ls)" "distinct (addrs_l ls)" by auto
  from "2.prems"(3) obtain m where n: "n = Suc m" and m: "height_l xs \<le> m"
    by (cases n) auto
  note r = "2.IH" [OF s dist(2) m]
  show ?case
  proof (cases "csr_items xs")
    case (Inl e)
    with r a show ?thesis unfolding l n by (simp add: refines_def refines_l_def)
  next
    case (Inr xs')
    with r obtain h2 where h2: "csr_each_h m (roots ls xs) h = Inr h2"
      "sits_l h2 ls xs'" "roots ls xs' = roots ls xs" "length h2 = length h"
      "\<forall>a. a \<notin> set (addrs_l ls) \<longrightarrow> deref h2 a = deref h a"
      by (auto simp: refines_l_def)
    from h2(5) dist a have "deref h2 a = Some (OList (roots ls xs))" by simp
    with h2 Inr a show ?thesis unfolding l n by (simp add: refines_def)
  qed
next
  case 4
  then show ?case by (cases ls) (auto simp: refines_l_def)
next
  case (5 k v d)
  from "5.prems"(1) obtain l ls' where ls: "ls = l # ls'"
    and s0: "sits h l v" and s': "sits_l h ls' (map snd d)"
    by (cases ls) auto
  from "5.prems"(2) ls have dist: "distinct (addrs l)" "distinct (addrs_l ls')"
    "distinct (addrs l @ addrs_l ls')" by auto
  from "5.prems"(3) have hv: "height v \<le> n" and hd: "height_d d \<le> n" by auto
  have "refines_l h (l # ls') (v # map snd d)
          (csr_each_h n (roots (l # ls') (v # map snd d)) h) (csr_items (v # map snd d))"
  proof (rule refines_l_Cons [OF "5.IH"(1) [OF s0 dist(1) hv] _ s' dist(3)])
    fix x' h1
    assume "convert_schema_refs v = Inr x'" and "sits_l h1 ls' (map snd d)"
    then show "refines_l h1 ls' (map snd d) (csr_each_h n (roots ls' (map snd d)) h1)
                 (csr_items (map snd d))"
      using "5.IH"(2) dist(2) hd by blast
  qed
  then show ?case unfolding ls by simp
next
  case 6
  then show ?case by (cases ls) (auto simp: refines_l_def)
next
  case (7 x xs)
  from "7.prems"(1) obtain l ls' where ls: "ls = l # ls'"
    and s0: "sits h l x" and s': "sits_l h ls' xs"
    by (cases ls) auto
  from "7.prems"(2) ls have dist: "distinct (addrs l)" "distinct (addrs_l ls')"
    "distinct (addrs l @ addrs_l ls')" by auto
  from "7.prems"(3) have hv: "height x \<le> n" and hd: "height_l xs \<le> n" by auto
  have "refines_l h (l # ls') (x # xs)
          (csr_each_h n (roots (l # ls') (x # xs)) h) (csr_items (x # xs))"
  proof (rule refines_l_Cons [OF "7.IH"(1) [OF s0 dist(1) hv] _ s' dist(3)])
    fix x' h1
    assume "convert_schema_refs x = Inr x'" and "sits_l h1 ls' xs"
    then show "refines_l h1 ls' xs (csr_each_h n (roots ls' xs) h1) (csr_items xs)"
      using "7.IH"(2) dist(2) hd by blast
  qed
  then show ?case unfolding ls by simp
qed (rule csr_h_scalar; simp)+

lemma length_enc:
  "length (snd (enc b j)) = length (addrs (lay_of b j))"
  "length (snd (enc_d b d)) = length (addrs_l (lay_of_d b d))"
  "length (snd (enc_l b xs)) = length (addrs_l (lay_of_l b xs))"
  by (induction b j and b d and b xs rule: enc_enc_d_enc_l.induct)
    (auto split: prod.splits)

lemma enc_sits:
  "\<And>P. length P = b \<Longrightarrow>
     fst (enc b j) = root (lay_of b j) j
     \<and> sits (P @ snd (enc b j)) (lay_of b j) j
     \<and> set (addrs (lay_of b j)) \<subseteq> {b ..< b + length (snd (enc b j))}
     \<and> distinct (addrs (lay_of b j))"
  "\<And>P. length P = b \<Longrightarrow>
     fst (enc_d b d) = zip (map fst d) (roots (lay_of_d b d) (map snd d))
     \<and> sits_l (P @ snd (enc_d b d)) (lay_of_d b d) (map snd d)
     \<and> set (addrs_l (lay_of_d b d)) \<subseteq> {b ..< b + length (snd (enc_d b d))}
     \<and> distinct (addrs_l (lay_of_d b d))"
  "\<And>P. length P = b \<Longrightarrow>
     fst (enc_l b xs) = roots (lay_of_l b xs) xs
     \<and> sits_l (P @ snd (enc_l b xs)) (lay_of_l b xs) xs
     \<and> set (addrs_l (lay_of_l b xs)) \<subseteq> {b ..< b + length (snd (enc_l b xs))}
     \<and> distinct (addrs_l (lay_of_l b xs))"
proof (induction b j and b d and b xs rule: enc_enc_d_enc_l.induct)
  case (6 b xs)
  obtain vs os where e: "enc_l (Suc b) xs = (vs, os)" by (cases "enc_l (Suc b) xs")
  from "6.IH" [of "P @ [OList vs]"] "6.prems" e
  have ih: "vs = roots (lay_of_l (Suc b) xs) xs"
    "sits_l ((P @ [OList vs]) @ os) (lay_of_l (Suc b) xs) xs"
    "set (addrs_l (lay_of_l (Suc b) xs)) \<subseteq> {Suc b ..< Suc b + length os}"
    "distinct (addrs_l (lay_of_l (Suc b) xs))"
    by auto
  have "deref (P @ OList vs # os) b = Some (OList vs)"
    using "6.prems" by (simp add: deref_def nth_append)
  with ih e show ?case by (auto simp: subset_iff)
next
  case (7 b d)
  obtain kvs os where e: "enc_d (Suc b) d = (kvs, os)" by (cases "enc_d (Suc b) d")
  from "7.IH" [of "P @ [ODict kvs]"] "7.prems" e
  have ih: "kvs = zip (map fst d) (roots (lay_of_d (Suc b) d) (map snd d))"
    "sits_l ((P @ [ODict kvs]) @ os) (lay_of_d (Suc b) d) (map snd d)"
    "set (addrs_l (lay_of_d (Suc b) d)) \<subseteq> {Suc b ..< Suc b + length os}"
    "distinct (addrs_l (lay_of_d (Suc b) d))"
    by auto
  have "deref (P @ ODict kvs # os) b = Some (ODict kvs)"
    using "7.prems" by (simp add: deref_def nth_append)
  with ih e show ?case by (auto simp: subset_iff)
next
  case (9 b k x d)
  obtain v os where e: "enc b x = (v, os)" by (cases "enc b x")
  obtain kvs os' where e': "enc_d (b + length os) d = (kvs, os')"
    by (cases "enc_d (b + length os) d")
  from "9.IH"(1) [of P] "9.prems" e
  have ih: "v = root (lay_of b x) x" "sits (P @ os) (lay_of b x) x"
    "set (addrs (lay_of b x)) \<subseteq> {b ..< b + length os}" "distinct (addrs (lay_of b x))"
    by auto
  from "9.IH"(2) [OF e [symmetric], of "P @ os"] "9.prems" e'
  have ih': "kvs = zip (map fst d) (roots (lay_of_d (b + length os) d) (map snd d))"
    "sits_l ((P @ os) @ os') (lay_of_d (b + length os) d) (map snd d)"
    "set (addrs_l (lay_of_d (b + length os) d)) \<subseteq> {b + length os ..< b + length os + length os'}"
    "distinct (addrs_l (lay_of_d (b + length os) d))"
    by auto
  from sits_extend(1) [OF ih(2), of os'] have "sits (P @ os @ os') (lay_of b x) x" by simp
  moreover from ih(3) ih'(3)
  have "set (addrs (lay_of b x)) \<inter> set (addrs_l (lay_of_d (b + length os) d)) = {}"
    by fastforce
  ultimately show ?case using ih ih' e e' by (auto simp: subset_iff)
next
  case (11 b x xs)
  obtain v os where e: "enc b x = (v, os)" by (cases "enc b x")
  obtain vs os' where e': "enc_l (b + length os) xs = (vs, os')"
    by (cases "enc_l (b + length os) xs")
  from "11.IH"(1) [of P] "11.prems" e
  have ih: "v = root (lay_of b x) x" "sits (P @ os) (lay_of b x) x"
    "set (addrs (lay_of b x)) \<subseteq> {b ..< b + length os}" "distinct (addrs (lay_of b x))"
    by auto
  from "11.IH"(2) [OF e [symmetric], of "P @ os"] "11.prems" e'
  have ih': "vs = roots (lay_of_l (b + length os) xs) xs"
    "sits_l ((P @ os) @ os') (lay_of_l (b + length os) xs) xs"
    "set (addrs_l (lay_of_l (b + length os) xs)) \<subseteq> {b + length os ..< b + length os + length os'}"
    "distinct (addrs_l (lay_of_l (b + length os) xs))"
    by auto
  from sits_extend(1) [OF ih(2), of os'] have "sits (P @ os @ os') (lay_of b x) x" by simp
  moreover from ih(3) ih'(3)
  have "set (addrs (lay_of b x)) \<inter> set (addrs_l (lay_of_l (b + length os) xs)) = {}"
    by fastforce
  ultimately show ?case using ih ih' e e' by (auto simp: subset_iff)
qed simp_all

lemma load_sits:
  assumes "load j h0 = (data, h)"
  shows "data = root (lay_of (length h0) j) j" and "sits h (lay_of (length h0) j) j"
    and "distinct (addrs (lay_of (length h0) j))"
    and "\<exists>os. h = h0 @ os"
    and "\<forall>a \<in> set (addrs (lay_of (length h0) j)). length h0 \<le> a"
  using assms enc_sits(1) [of h0 "length h0" j]
  by (auto simp: load_def split: prod.splits)

lemma read_scalar:
  assumes "sits h l j" and "0 < n" and "\<forall>x. j \<noteq> JDict x" and "\<forall>x. j \<noteq> JList x"
  shows "read_json n h (root l j) = Some j"
proof -
  from assms(2) obtain m where "n = Suc m" by (cases n) auto
  with assms(1,3,4) show ?thesis by (cases l; cases j) auto
qed

lemma read_sits:
  "\<And>l n. sits h l j \<Longrightarrow> height j \<le> n \<Longrightarrow> read_json n h (root l j) = Some j"
  "\<And>ls n. sits_l h ls (map snd d) \<Longrightarrow> height_d d \<le> n \<Longrightarrow>
     read_d n h (zip (map fst d) (roots ls (map snd d))) = Some d"
  "\<And>ls n. sits_l h ls xs \<Longrightarrow> height_l xs \<le> n \<Longrightarrow> read_l n h (roots ls xs) = Some xs"
proof (induction j and d and xs rule: height_height_d_height_l.induct)
  case (1 xs)
  then obtain m where "n = Suc m" "height_l xs \<le> m" by (cases n) auto
  with 1 show ?case by (cases l) auto
next
  case (2 d)
  then obtain m where "n = Suc m" "height_d d \<le> m" by (cases n) auto
  with 2 show ?case by (cases l) auto
next
  case (5 k x d)
  then show ?case by (cases ls) auto
next
  case (7 x xs)
  then show ?case by (cases ls) auto
next
  case 4
  then show ?case by (cases ls) auto
next
  case 6
  then show ?case by (cases ls) auto
qed (rule read_scalar; simp)+

section \<open>The assembled mapping on the store and on documents\<close>

lemma map_of_apsnd: "map_of (map (apsnd f) d) k = map_option f (map_of d k)"
  by (induction d) auto

lemma has_key_apsnd: "has_key (map (apsnd f) d) k = has_key d k"
  by (simp add: has_key_map_of map_of_apsnd)

lemma dict_get_apsnd: "dict_get (map (apsnd f) d) k (f dflt) = f (dict_get d k dflt)"
  by (simp add: dict_get_def map_of_apsnd split: option.splits)

lemma dict_set_apsnd: "map (apsnd f) (dict_set d k v) = dict_set (map (apsnd f) d) k (f v)"
  by (induction d) auto

lemma copy_key_apsnd:
  "map (apsnd f) (copy_key spec k k' t) = copy_key (map (apsnd f) spec) k k' (map (apsnd f) t)"
  by (simp add: copy_key_def map_of_apsnd dict_set_apsnd split: option.splits)

lemma copy_extensions_apsnd:
  "map (apsnd f) (copy_extensions spec t)
     = copy_extensions (map (apsnd f) spec) (map (apsnd f) t)"
  by (induction spec arbitrary: t) (auto simp: dict_set_apsnd)

lemma build_components_apsnd:
  "map (apsnd f) (build_components spec) = build_components (map (apsnd f) spec)"
  by (simp add: build_components_def copy_key_apsnd)

lemma assemble_apsnd:
  "map (apsnd f) (assemble v i s c spec)
     = assemble (f v) (f i) (map_option f s) (map_option f c) (map (apsnd f) spec)"
  by (cases s; cases c)
    (simp_all add: assemble_def Let_def copy_extensions_apsnd copy_key_apsnd dict_set_apsnd)

lemma build_spec_assemble:
  "build_spec fmt d =
     (case build_servers fmt d of
        Inl e \<Rightarrow> Inl e
      | Inr sv \<Rightarrow>
         Inr (assemble (JStr ''3.0.0'') (dict_get d ''info'' default_info)
                (if sv \<noteq> [] then Some (JList sv) else None)
                (if build_components d \<noteq> [] then Some (JDict (build_components d)) else None)
                d))"
  by (simp add: build_spec_def assemble_def Let_def split: sum.splits)

lemma docs_of_annot: "length ls = length d \<Longrightarrow> docs_of (annot ls d) = d"
  by (induction ls d rule: list_induct2) (auto simp: docs_of_def annot_def)

lemma vals_of_annot:
  "length ls = length d \<Longrightarrow> vals_of (annot ls d) = zip (map fst d) (roots ls (map snd d))"
  by (induction ls d rule: list_induct2) (auto simp: vals_of_def annot_def)

lemma lays_of_annot: "length ls = length d \<Longrightarrow> lays_of (annot ls d) = ls"
  by (induction ls d rule: list_induct2) (auto simp: lays_of_def annot_def)

lemma annot_docs: "annot (lays_of A) (docs_of A) = A"
  by (induction A) (auto simp: docs_of_def annot_def lays_of_def)

lemma keys_docs_of [simp]: "map fst (docs_of A) = map fst A"
  by (simp add: docs_of_def)

lemma keys_vals_of [simp]: "map fst (vals_of A) = map fst A"
  by (simp add: vals_of_def)

lemma length_lays_of [simp]: "length (lays_of A) = length A"
  by (simp add: lays_of_def)

lemma length_docs_of [simp]: "length (docs_of A) = length A"
  by (simp add: docs_of_def)

lemma vals_of_zip:
  "vals_of A = zip (map fst (docs_of A)) (roots (lays_of A) (map snd (docs_of A)))"
  using vals_of_annot [of "lays_of A" "docs_of A"] by (simp add: annot_docs)

lemma sits_l_entries:
  "sits_l h (lays_of A) (map snd (docs_of A)) \<longleftrightarrow> (\<forall>(k, l, x) \<in> set A. sits h l x)"
  by (induction A) (auto simp: lays_of_def docs_of_def)

lemma addrs_l_entries:
  "set (addrs_l (lays_of A)) = (\<Union>(k, l, x) \<in> set A. set (addrs l))"
  by (induction A) (auto simp: lays_of_def)

lemma leaf_strings:
  "roots (replicate (length ks) Leaf) (map JStr ks) = map VStr ks"
  "sits_l h (replicate (length ks) Leaf) (map JStr ks)"
  by (induction ks) auto

lemma map_keys_zip:
  "length xs = length ys \<Longrightarrow> map (\<lambda>(k, _). f k) (zip xs ys) = map f xs"
  by (induction xs ys rule: list_induct2) auto

lemma iterate_sits:
  assumes "sits h l x"
  shows "case iterate x of
           Inl e \<Rightarrow> iterate_h h (root l x) = Inl e
         | Inr ss \<Rightarrow> (\<exists>sls. iterate_h h (root l x) = Inr (roots sls ss) \<and> sits_l h sls ss)"
proof (cases x)
  case (JStr s)
  with assms have l: "l = Leaf" by (cases l) auto
  have "map (\<lambda>c. VStr [c]) s = map VStr (map (\<lambda>c. [c]) s)"
    "map (\<lambda>c. JStr [c]) s = map JStr (map (\<lambda>c. [c]) s)" by simp_all
  with leaf_strings(1) [of "map (\<lambda>c. [c]) s"] leaf_strings(2) [of h "map (\<lambda>c. [c]) s"]
  show ?thesis
    unfolding JStr l
    by (auto simp: iterate_def iterate_h_def simp del: map_map
        intro!: exI [of _ "replicate (length s) Leaf"])
next
  case (JList xs)
  with assms show ?thesis by (cases l) (auto simp: iterate_def iterate_h_def)
next
  case (JDict d)
  with assms obtain a ls where l: "l = Node a ls"
    and a: "deref h a = Some (ODict (zip (map fst d) (roots ls (map snd d))))"
    and s: "sits_l h ls (map snd d)" by (cases l) auto
  from sits_l_length [OF s] have len: "length (roots ls (map snd d)) = length d"
    by (simp add: length_roots)
  have v: "map (\<lambda>(k, _). VStr k) (zip (map fst d) (roots ls (map snd d))) = map VStr (map fst d)"
    using len by (simp add: map_keys_zip del: map_map)
  have j: "map (\<lambda>(k, _). JStr k) d = map JStr (map fst d)" by (simp add: case_prod_beta)
  from leaf_strings(1) [of "map fst d"] leaf_strings(2) [of h "map fst d"] show ?thesis
    unfolding JDict l
    by (auto simp: iterate_def iterate_h_def a v j simp del: map_map
        intro!: exI [of _ "replicate (length d) Leaf"])
qed (use assms in \<open>cases l; auto simp: iterate_def iterate_h_def\<close>)+

lemma alloc_servers_sits:
  assumes ag: "fmt_agrees fmt_h fmt"
  shows "sits h lh host \<Longrightarrow> sits h lb base \<Longrightarrow> sits_l h sls ss \<Longrightarrow>
     \<exists>os. alloc_servers fmt_h (root lh host) (root lb base) (roots sls ss) h
            = (roots (server_lays (length h) (map (server_entry fmt host base) ss))
                 (map (server_entry fmt host base) ss), h @ os)
         \<and> length os = length ss
         \<and> sits_l (h @ os) (server_lays (length h) (map (server_entry fmt host base) ss))
             (map (server_entry fmt host base) ss)"
proof (induction ss arbitrary: h sls)
  case Nil
  then show ?case by (cases sls) auto
next
  case (Cons s ss)
  from Cons.prems(3) obtain l sls' where sls: "sls = l # sls'"
    and s0: "sits h l s" and s': "sits_l h sls' ss" by (cases sls) auto
  let ?u = "fmt s @ ''://'' @ fmt host @ fmt base"
  let ?ob = "ODict [(''url'', VStr ?u)]"
  let ?h = "h @ [?ob]"
  let ?es = "map (server_entry fmt host base) ss"
  have f: "fmt_h h (root l s) = fmt s" "fmt_h h (root lh host) = fmt host"
    "fmt_h h (root lb base) = fmt base"
    using ag s0 Cons.prems(1,2) by (auto simp: fmt_agrees_def)
  from Cons.IH [OF sits_extend(1) [OF Cons.prems(1)] sits_extend(1) [OF Cons.prems(2)]
      sits_extend(2) [OF s'], of "[?ob]"]
  obtain os where os: "alloc_servers fmt_h (root lh host) (root lb base) (roots sls' ss) ?h
            = (roots (server_lays (length ?h) ?es) ?es, ?h @ os)"
    "length os = length ss"
    "sits_l (?h @ os) (server_lays (length ?h) ?es) ?es"
    by blast
  have d: "deref (?h @ os) (length h) = Some ?ob" by (simp add: deref_def nth_append)
  have e: "server_entry fmt host base s = JDict [(''url'', JStr ?u)]"
    by (simp add: server_entry_def)
  show ?case
    unfolding sls using os f d
    by (intro exI [of _ "?ob # os"]) (simp add: alloc_def e)
qed

lemma map_of_vals_of:
  "map_of (vals_of ad) k = map_option (\<lambda>(l, x). root l x) (map_of ad k)"
  by (simp add: vals_of_def map_of_apsnd)

lemma map_of_docs_of: "map_of (docs_of ad) k = map_option snd (map_of ad k)"
  by (simp add: docs_of_def map_of_apsnd)

lemma has_key_vals_of [simp]: "has_key (vals_of ad) k = has_key ad k"
  by (simp add: vals_of_def has_key_apsnd)

lemma has_key_docs_of [simp]: "has_key (docs_of ad) k = has_key ad k"
  by (simp add: docs_of_def has_key_apsnd)

lemma dict_get_annot:
  assumes "\<forall>(k, l, x) \<in> set ad. sits h l x" and "sits h l0 x0"
  shows "\<exists>l x. dict_get ad k (l0, x0) = (l, x) \<and> sits h l x
      \<and> dict_get (vals_of ad) k (root l0 x0) = root l x
      \<and> dict_get (docs_of ad) k x0 = x"
proof (cases "map_of ad k")
  case None
  with assms(2) show ?thesis by (simp add: dict_get_def map_of_vals_of map_of_docs_of)
next
  case (Some a)
  obtain l x where a: "a = (l, x)" by (cases a)
  from Some a have "(k, l, x) \<in> set ad" by (auto dest: map_of_SomeD)
  with assms(1) have "sits h l x" by auto
  with Some a show ?thesis by (simp add: dict_get_def map_of_vals_of map_of_docs_of)
qed

lemma build_servers_sits:
  assumes ag: "fmt_agrees fmt_h fmt" and s: "\<forall>(k, l, x) \<in> set ad. sits h l x"
  shows "case build_servers fmt (docs_of ad) of
           Inl e \<Rightarrow> build_servers_h fmt_h (vals_of ad) h = Inl e
         | Inr sv \<Rightarrow>
            (\<exists>os. build_servers_h fmt_h (vals_of ad) h
                     = Inr (roots (server_lays (length h) sv) sv, h @ os)
                 \<and> length os = length sv
                 \<and> sits_l (h @ os) (server_lays (length h) sv) sv)"
proof (cases "has_key ad ''host'' \<or> has_key ad ''basePath'' \<or> has_key ad ''schemes''")
  case False
  then show ?thesis by (simp add: build_servers_def build_servers_h_def)
next
  case True
  from dict_get_annot [OF s, of Leaf "JStr ''localhost''" "''host''"]
  obtain lh host where host: "sits h lh host"
    "dict_get (vals_of ad) ''host'' (VStr ''localhost'') = root lh host"
    "dict_get (docs_of ad) ''host'' (JStr ''localhost'') = host"
    by auto
  from dict_get_annot [OF s, of Leaf "JStr []" "''basePath''"]
  obtain lb base where base: "sits h lb base"
    "dict_get (vals_of ad) ''basePath'' (VStr []) = root lb base"
    "dict_get (docs_of ad) ''basePath'' (JStr []) = base"
    by auto
  let ?it = "case map_of (vals_of ad) ''schemes'' of None \<Rightarrow> Inr [VStr ''http'']
              | Some v \<Rightarrow> iterate_h h v"
  have sch: "case iterate (dict_get (docs_of ad) ''schemes'' (JList [JStr ''http''])) of
       Inl e \<Rightarrow> ?it = Inl e
     | Inr ss \<Rightarrow> (\<exists>sls. ?it = Inr (roots sls ss) \<and> sits_l h sls ss)"
  proof (cases "map_of ad ''schemes''")
    case None
    then show ?thesis
      by (auto simp: dict_get_def map_of_docs_of map_of_vals_of iterate_def
          intro!: exI [of _ "[Leaf]"])
  next
    case (Some a)
    obtain l x where a: "a = (l, x)" by (cases a)
    from Some a have "(''schemes'', l, x) \<in> set ad" by (auto dest: map_of_SomeD)
    with s have "sits h l x" by auto
    moreover have "?it = iterate_h h (root l x)"
      using Some a by (simp add: map_of_vals_of)
    moreover have "dict_get (docs_of ad) ''schemes'' (JList [JStr ''http'']) = x"
      using Some a by (simp add: dict_get_def map_of_docs_of)
    ultimately show ?thesis using iterate_sits [of h l x]
      by (cases "iterate x") simp_all
  qed
  show ?thesis
  proof (cases "iterate (dict_get (docs_of ad) ''schemes'' (JList [JStr ''http'']))")
    case (Inl e)
    with sch True host base show ?thesis
      by (simp add: build_servers_def build_servers_h_def Let_def)
  next
    case (Inr ss)
    with sch obtain sls where sls: "?it = Inr (roots sls ss)" "sits_l h sls ss" by auto
    from alloc_servers_sits [OF ag host(1) base(1) sls(2)] Inr sls(1) True host base
    show ?thesis
      by (simp add: build_servers_def build_servers_h_def Let_def)
  qed
qed

section \<open>Passthrough and idempotence\<close>

text \<open>
  C3. A document that is not a mapping, or has no top-level \<^verbatim>\<open>swagger\<close> key, or already
  has a top-level \<^verbatim>\<open>openapi\<close> key, is returned exactly as it was given: no exception, no
  key added, removed or rewritten, no reference touched.
\<close>

theorem passthrough_unchanged:
  assumes "\<not> is_legacy spec"
  shows "convert_spec fmt spec = Inr spec"
  using assms by (cases spec) (auto simp: convert_spec_def is_legacy_def)

theorem passthrough_unchanged_witness:
  "\<not> is_legacy (JDict [(''title'', JStr ''notes''),
                        (''link'', JDict [(''$ref'', JStr ''#/definitions/Pet'')])])
   \<and> convert_spec fmt_str (JDict [(''title'', JStr ''notes''),
                        (''link'', JDict [(''$ref'', JStr ''#/definitions/Pet'')])])
     = Inr (JDict [(''title'', JStr ''notes''),
                        (''link'', JDict [(''$ref'', JStr ''#/definitions/Pet'')])])"
  using passthrough_unchanged [of "JDict [(''title'', JStr ''notes''),
                        (''link'', JDict [(''$ref'', JStr ''#/definitions/Pet'')])]" fmt_str]
  by (simp add: is_legacy_def has_key_def)

text \<open>
  C4. Converting twice is converting once: whatever the first conversion does (returns
  the document unchanged, returns a converted document, or raises), a second conversion
  of its result changes nothing. In particular a document whose top level has an
  \<^verbatim>\<open>openapi\<close> key is returned as it is.
\<close>

theorem convert_idempotent:
  "(case convert_spec fmt spec of Inl e \<Rightarrow> Inl e | Inr spec' \<Rightarrow> convert_spec fmt spec')
     = convert_spec fmt spec
   \<and> (has_key d ''openapi'' \<longrightarrow> convert_spec fmt (JDict d) = Inr (JDict d))"
proof
  show "(case convert_spec fmt spec of Inl e \<Rightarrow> Inl e | Inr spec' \<Rightarrow> convert_spec fmt spec')
     = convert_spec fmt spec"
  proof (cases "convert_spec fmt spec")
    case (Inl e)
    then show ?thesis by simp
  next
    case (Inr out)
    show ?thesis
    proof (cases "is_legacy spec")
      case True
      from convert_spec_openapi [OF True Inr] obtain d'
        where "out = JDict d'" "has_key d' ''openapi''" by blast
      then have "convert_spec fmt out = Inr out"
        by (simp add: convert_spec_def)
      with Inr show ?thesis by simp
    next
      case False
      then have "convert_spec fmt spec = Inr spec" by (rule convert_spec_not_legacy)
      with Inr show ?thesis by simp
    qed
  qed
  show "has_key d ''openapi'' \<longrightarrow> convert_spec fmt (JDict d) = Inr (JDict d)"
    by (simp add: convert_spec_def)
qed

theorem convert_idempotent_witness:
  "convert_spec fmt_str
     (JDict [(''swagger'', JStr ''2.0''),
             (''paths'', JDict [(''/pets'', JDict [(''$ref'', JStr ''#/definitions/Pet'')])])])
     = Inr (JDict [(''openapi'', JStr ''3.0.0''),
                   (''info'', JDict [(''title'', JStr ''API''), (''version'', JStr ''1.0.0'')]),
                   (''paths'', JDict [(''/pets'',
                        JDict [(''$ref'', JStr ''#/components/schemas/Pet'')])])])
   \<and> has_key [(''openapi'', JStr ''3.0.0''),
               (''info'', JDict [(''title'', JStr ''API''), (''version'', JStr ''1.0.0'')]),
               (''paths'', JDict [(''/pets'',
                        JDict [(''$ref'', JStr ''#/components/schemas/Pet'')])])] ''openapi''
   \<and> convert_spec fmt_str
         (JDict [(''openapi'', JStr ''3.0.0''),
                 (''info'', JDict [(''title'', JStr ''API''), (''version'', JStr ''1.0.0'')]),
                 (''paths'', JDict [(''/pets'',
                        JDict [(''$ref'', JStr ''#/components/schemas/Pet'')])])])
     = Inr (JDict [(''openapi'', JStr ''3.0.0''),
                   (''info'', JDict [(''title'', JStr ''API''), (''version'', JStr ''1.0.0'')]),
                   (''paths'', JDict [(''/pets'',
                        JDict [(''$ref'', JStr ''#/components/schemas/Pet'')])])])"
proof -
  have first: "convert_spec fmt_str
     (JDict [(''swagger'', JStr ''2.0''),
             (''paths'', JDict [(''/pets'', JDict [(''$ref'', JStr ''#/definitions/Pet'')])])])
     = Inr (JDict [(''openapi'', JStr ''3.0.0''),
                   (''info'', JDict [(''title'', JStr ''API''), (''version'', JStr ''1.0.0'')]),
                   (''paths'', JDict [(''/pets'',
                        JDict [(''$ref'', JStr ''#/components/schemas/Pet'')])])])"
    by code_simp
  from convert_idempotent [of fmt_str
     "JDict [(''swagger'', JStr ''2.0''),
             (''paths'', JDict [(''/pets'', JDict [(''$ref'', JStr ''#/definitions/Pet'')])])]"
     "[(''openapi'', JStr ''3.0.0''),
       (''info'', JDict [(''title'', JStr ''API''), (''version'', JStr ''1.0.0'')]),
       (''paths'', JDict [(''/pets'', JDict [(''$ref'', JStr ''#/components/schemas/Pet'')])])]"]
    first
  show ?thesis by simp
qed

section \<open>The contract of the Reference Rewriter\<close>

text \<open>
  C7. On a string, \<^verbatim>\<open>convert_ref\<close> applies the three substitutions of the table, and the
  order in which they are applied does not matter. Read from the left, the result replaces
  every legacy prefix where it stands by its modern prefix and copies every other
  character; no legacy prefix is left in it. A string in which no legacy prefix occurs
  is returned unchanged, and so are the empty string and \<^verbatim>\<open>None\<close>, without an exception.
\<close>

theorem convert_ref_contract:
  "(mset rules = mset legacy_rules \<longrightarrow>
      convert_ref (JStr s) = Inr (JStr (apply_rules rules s)))
   \<and> (\<forall>(old, new) \<in> set legacy_rules. \<exists>t.
         convert_ref (JStr r) = Inr (JStr t) \<and>
         convert_ref (JStr (old @ r)) = Inr (JStr (new @ t)))
   \<and> ((\<forall>p \<in> set legacy_prefixes. \<not> prefix p (c # cs)) \<longrightarrow>
         (\<exists>t. convert_ref (JStr cs) = Inr (JStr t) \<and>
              convert_ref (JStr (c # cs)) = Inr (JStr (c # t))))
   \<and> (\<exists>t. convert_ref (JStr s) = Inr (JStr t) \<and>
            (\<forall>p \<in> set legacy_prefixes. \<not> sublist p t))
   \<and> ((\<forall>p \<in> set legacy_prefixes. \<not> sublist p s) \<longrightarrow>
         convert_ref (JStr s) = Inr (JStr s))
   \<and> convert_ref (JStr []) = Inr (JStr [])
   \<and> convert_ref JNull = Inr JNull"
proof (intro conjI)
  show "mset rules = mset legacy_rules \<longrightarrow>
      convert_ref (JStr s) = Inr (JStr (apply_rules rules s))"
    by (simp add: convert_ref_str apply_rules_permuted)
  show "\<forall>(old, new) \<in> set legacy_rules. \<exists>t.
         convert_ref (JStr r) = Inr (JStr t) \<and>
         convert_ref (JStr (old @ r)) = Inr (JStr (new @ t))"
    using rewrite_text_definitions [of r] rewrite_text_parameters [of r]
      rewrite_text_responses [of r]
    by (simp add: legacy_rules_def convert_ref_str)
  show "(\<forall>p \<in> set legacy_prefixes. \<not> prefix p (c # cs)) \<longrightarrow>
         (\<exists>t. convert_ref (JStr cs) = Inr (JStr t) \<and>
              convert_ref (JStr (c # cs)) = Inr (JStr (c # t)))"
    using rewrite_text_other [of c cs]
    by (simp add: legacy_prefixes_def convert_ref_str)
  show "\<exists>t. convert_ref (JStr s) = Inr (JStr t) \<and>
            (\<forall>p \<in> set legacy_prefixes. \<not> sublist p t)"
    using rewrite_text_clean [of _ s] by (auto simp: convert_ref_str)
  show "(\<forall>p \<in> set legacy_prefixes. \<not> sublist p s) \<longrightarrow>
         convert_ref (JStr s) = Inr (JStr s)"
    by (simp add: convert_ref_str rewrite_text_absent)
  show "convert_ref (JStr []) = Inr (JStr [])"
    by (simp add: convert_ref_def)
  show "convert_ref JNull = Inr JNull"
    by (simp add: convert_ref_def)
qed

theorem convert_ref_contract_witness:
  "mset [(''#/responses/'', ''#/components/responses/''),
         (''#/definitions/'', ''#/components/schemas/''),
         (''#/parameters/'', ''#/components/parameters/'')] = mset legacy_rules
   \<and> convert_ref (JStr ''a#/parameters/b#/definitions/'')
       = Inr (JStr (apply_rules
            [(''#/responses/'', ''#/components/responses/''),
             (''#/definitions/'', ''#/components/schemas/''),
             (''#/parameters/'', ''#/components/parameters/'')]
            ''a#/parameters/b#/definitions/''))
   \<and> convert_ref (JStr ''a#/parameters/b#/definitions/'')
       = Inr (JStr ''a#/components/parameters/b#/components/schemas/'')
   \<and> \<not> prefix ''#/definitions/'' ''#/definition''
   \<and> \<not> prefix ''#/parameters/'' ''#/definition''
   \<and> \<not> prefix ''#/responses/'' ''#/definition''
   \<and> \<not> sublist ''#/definitions/'' ''#/definition''
   \<and> \<not> sublist ''#/parameters/'' ''#/definition''
   \<and> \<not> sublist ''#/responses/'' ''#/definition''
   \<and> convert_ref (JStr ''#/definition'') = Inr (JStr ''#/definition'')"
proof -
  have m: "mset [(''#/responses/'', ''#/components/responses/''),
         (''#/definitions/'', ''#/components/schemas/''),
         (''#/parameters/'', ''#/components/parameters/'')] = mset legacy_rules"
    by (simp add: legacy_rules_def)
  have e: "convert_ref (JStr ''a#/parameters/b#/definitions/'')
       = Inr (JStr ''a#/components/parameters/b#/components/schemas/'')"
    by code_simp
  have n: "\<not> sublist ''#/definitions/'' ''#/definition''"
    "\<not> sublist ''#/parameters/'' ''#/definition''"
    "\<not> sublist ''#/responses/'' ''#/definition''"
    by (simp_all add: sublist_Cons_right)
  have p: "\<not> prefix ''#/definitions/'' ''#/definition''"
   "\<not> prefix ''#/parameters/'' ''#/definition''"
   "\<not> prefix ''#/responses/'' ''#/definition''"
    by simp_all
  from convert_ref_contract [of
      "[(''#/responses/'', ''#/components/responses/''),
         (''#/definitions/'', ''#/components/schemas/''),
         (''#/parameters/'', ''#/components/parameters/'')]"
      "''a#/parameters/b#/definitions/''" "[]" "CHR ''#''" "''/definition''"] m
  have 1: "convert_ref (JStr ''a#/parameters/b#/definitions/'')
       = Inr (JStr (apply_rules
            [(''#/responses/'', ''#/components/responses/''),
             (''#/definitions/'', ''#/components/schemas/''),
             (''#/parameters/'', ''#/components/parameters/'')]
            ''a#/parameters/b#/definitions/''))"
    by blast
  from n have "\<forall>p \<in> set legacy_prefixes. \<not> sublist p ''#/definition''"
    by (simp add: legacy_prefixes_def)
  with convert_ref_contract [of legacy_rules "''#/definition''" "[]" "CHR ''#''" "''/definition''"]
  have 2: "convert_ref (JStr ''#/definition'') = Inr (JStr ''#/definition'')"
    by blast
  from m e n p 1 2 show ?thesis by blast
qed

section \<open>Servers\<close>

text \<open>
  C1 (as amended). For a legacy document whose conversion returns, the output has a
  \<^verbatim>\<open>servers\<close> key exactly when one of \<^verbatim>\<open>host\<close>, \<^verbatim>\<open>basePath\<close>, \<^verbatim>\<open>schemes\<close> is present
  in the input and the schemes iterated over (the input's \<^verbatim>\<open>schemes\<close>, or
  \<^verbatim>\<open>["http"]\<close> when absent) are not empty. It then holds one entry
  \<^verbatim>\<open>{url: "<scheme>://<host><basePath>"}\<close> per scheme, in the order of the
  schemes, with \<^verbatim>\<open>localhost\<close> for an absent host and the empty string for an absent
  base path.
\<close>

theorem servers_synthesis:
  assumes "is_legacy (JDict d)"
    and "convert_spec fmt (JDict d) = Inr out"
    and "iterate (dict_get d ''schemes'' (JList [JStr ''http''])) = Inr ss"
  shows "\<exists>od. out = JDict od
     \<and> (has_key od ''servers'' \<longleftrightarrow>
          (has_key d ''host'' \<or> has_key d ''basePath'' \<or> has_key d ''schemes'') \<and> ss \<noteq> [])
     \<and> (has_key od ''servers'' \<longrightarrow>
          map_of od ''servers'' = Some (JList (map (\<lambda>scheme.
            JDict [(''url'', JStr (fmt scheme @ ''://''
                      @ fmt (dict_get d ''host'' (JStr ''localhost''))
                      @ fmt (dict_get d ''basePath'' (JStr []))))]) ss)))"
proof -
  from assms(1,2) obtain ns od where ns: "build_spec fmt d = Inr ns"
    and od: "csr_values ns = Inr od" and out: "out = JDict od"
    and keys: "map fst od = map fst ns"
    by (rule convert_spec_out)
  let ?trigger = "has_key d ''host'' \<or> has_key d ''basePath'' \<or> has_key d ''schemes''"
  let ?entries = "map (server_entry fmt (dict_get d ''host'' (JStr ''localhost''))
                      (dict_get d ''basePath'' (JStr []))) ss"
  have look: "map_of ns ''servers'' = (if ?trigger \<and> ss \<noteq> [] then Some (JList ?entries) else None)"
    using build_spec_lookup [OF ns, of "''servers''"] build_servers_iterate [OF assms(3), of fmt]
    by auto
  have 1: "has_key od ''servers'' \<longleftrightarrow> ?trigger \<and> ss \<noteq> []"
    using has_key_keys [OF keys, of "''servers''"] look by (simp add: has_key_map_of)
  have 2: "map_of od ''servers'' = Some (JList ?entries)" if "has_key od ''servers''"
  proof -
    from that 1 look have "map_of ns ''servers'' = Some (JList ?entries)" by simp
    from csr_values_map_of [OF od this] obtain v' where
      "map_of od ''servers'' = Some v'" "convert_schema_refs (JList ?entries) = Inr v'"
      by blast
    then show ?thesis by (simp only: csr_servers sum.inject)
  qed
  have 3: "?entries = map (\<lambda>scheme.
            JDict [(''url'', JStr (fmt scheme @ ''://''
                      @ fmt (dict_get d ''host'' (JStr ''localhost''))
                      @ fmt (dict_get d ''basePath'' (JStr []))))]) ss"
    by (simp add: server_entry_def)
  from out 1 2 show ?thesis unfolding 3 by blast
qed

theorem servers_synthesis_witness:
  "is_legacy (JDict [(''swagger'', JStr ''2.0''), (''host'', JStr ''api.example.com''),
                     (''basePath'', JStr ''/v1''),
                     (''schemes'', JList [JStr ''https'', JStr ''http''])])
   \<and> convert_spec fmt_str
        (JDict [(''swagger'', JStr ''2.0''), (''host'', JStr ''api.example.com''),
                (''basePath'', JStr ''/v1''),
                (''schemes'', JList [JStr ''https'', JStr ''http''])])
      = Inr (JDict [(''openapi'', JStr ''3.0.0''),
                    (''info'', JDict [(''title'', JStr ''API''), (''version'', JStr ''1.0.0'')]),
                    (''servers'', JList [JDict [(''url'', JStr ''https://api.example.com/v1'')],
                                         JDict [(''url'', JStr ''http://api.example.com/v1'')]])])
   \<and> has_key [(''openapi'', JStr ''3.0.0''),
               (''info'', JDict [(''title'', JStr ''API''), (''version'', JStr ''1.0.0'')]),
               (''servers'', JList [JDict [(''url'', JStr ''https://api.example.com/v1'')],
                                    JDict [(''url'', JStr ''http://api.example.com/v1'')]])]
        ''servers''
   \<and> map_of [(''openapi'', JStr ''3.0.0''),
              (''info'', JDict [(''title'', JStr ''API''), (''version'', JStr ''1.0.0'')]),
              (''servers'', JList [JDict [(''url'', JStr ''https://api.example.com/v1'')],
                                   JDict [(''url'', JStr ''http://api.example.com/v1'')]])]
        ''servers''
      = Some (JList (map (\<lambda>scheme. JDict [(''url'', JStr (fmt_str scheme @ ''://''
                 @ fmt_str (JStr ''api.example.com'') @ fmt_str (JStr ''/v1'')))])
               [JStr ''https'', JStr ''http'']))"
proof -
  let ?d = "[(''swagger'', JStr ''2.0''), (''host'', JStr ''api.example.com''),
             (''basePath'', JStr ''/v1''),
             (''schemes'', JList [JStr ''https'', JStr ''http''])]"
  let ?o = "[(''openapi'', JStr ''3.0.0''),
             (''info'', JDict [(''title'', JStr ''API''), (''version'', JStr ''1.0.0'')]),
             (''servers'', JList [JDict [(''url'', JStr ''https://api.example.com/v1'')],
                                  JDict [(''url'', JStr ''http://api.example.com/v1'')]])]"
  have l: "is_legacy (JDict ?d)" by (simp add: is_legacy_def)
  have c: "convert_spec fmt_str (JDict ?d) = Inr (JDict ?o)" by code_simp
  have i: "iterate (dict_get ?d ''schemes'' (JList [JStr ''http'']))
      = Inr [JStr ''https'', JStr ''http'']"
    by (simp add: iterate_def dict_get_def)
  from servers_synthesis [OF l c i] l c show ?thesis
    by (simp add: dict_get_def)
qed

theorem servers_iff_counterexample:
  "is_legacy (JDict [(''swagger'', JStr ''2.0''), (''host'', JStr ''api.example.com''),
                     (''schemes'', JList [])])
   \<and> has_key [(''swagger'', JStr ''2.0''), (''host'', JStr ''api.example.com''),
               (''schemes'', JList [])] ''host''
   \<and> convert_spec fmt_str
        (JDict [(''swagger'', JStr ''2.0''), (''host'', JStr ''api.example.com''),
                (''schemes'', JList [])])
      = Inr (JDict [(''openapi'', JStr ''3.0.0''),
                    (''info'', JDict [(''title'', JStr ''API''), (''version'', JStr ''1.0.0'')])])
   \<and> \<not> has_key [(''openapi'', JStr ''3.0.0''),
                 (''info'', JDict [(''title'', JStr ''API''), (''version'', JStr ''1.0.0'')])]
          ''servers''"
proof -
  have "convert_spec fmt_str
        (JDict [(''swagger'', JStr ''2.0''), (''host'', JStr ''api.example.com''),
                (''schemes'', JList [])])
      = Inr (JDict [(''openapi'', JStr ''3.0.0''),
                    (''info'', JDict [(''title'', JStr ''API''), (''version'', JStr ''1.0.0'')])])"
    by code_simp
  then show ?thesis by (simp add: is_legacy_def)
qed

section \<open>References of the converted document\<close>

text \<open>
  C2 (as amended). For a legacy document whose conversion returns, the references of
  the output (the values under \<^verbatim>\<open>$ref\<close> in its mappings, at any depth, inside lists and
  mappings of mappings) are, one for one and in order, the results of \<^verbatim>\<open>convert_ref\<close> on
  the references of the assembled mapping; and no legacy prefix occurs in any reference
  of the output that is a string. Nothing else is rewritten: with the value under every
  \<^verbatim>\<open>$ref\<close> key blanked, the output and the assembled mapping are the same document, so
  the keys, their order and every string that is not the value of a \<^verbatim>\<open>$ref\<close> key
  (descriptions, titles, other fields) are those of the assembled mapping, legacy
  prefixes included.
\<close>

theorem references_rewritten:
  assumes "is_legacy (JDict d)" and "convert_spec fmt (JDict d) = Inr out"
  shows "\<exists>ns. build_spec fmt d = Inr ns
     \<and> list_all2 (\<lambda>v v'. convert_ref v = Inr v') (ref_values (JDict ns)) (ref_values out)
     \<and> (\<forall>v' \<in> set (ref_values out). \<forall>s. v' = JStr s \<longrightarrow>
           (\<forall>p \<in> set legacy_prefixes. \<not> sublist p s))
     \<and> blank_refs out = blank_refs (JDict ns)"
proof -
  from assms obtain ns where ns: "build_spec fmt d = Inr ns"
    and out: "convert_schema_refs (JDict ns) = Inr out"
    by (auto simp: is_legacy_def convert_spec_def split: sum.splits)
  from csr_refs(1) [OF out]
  have rel: "list_all2 (\<lambda>v v'. convert_ref v = Inr v') (ref_values (JDict ns)) (ref_values out)" .
  have "\<not> sublist p s" if "JStr s \<in> set (ref_values out)" "p \<in> set legacy_prefixes" for s p
  proof -
    from rel that(1) obtain v where "convert_ref v = Inr (JStr s)"
      by (auto simp: list_all2_conv_all_nth in_set_conv_nth)
    then show ?thesis using that(2) by (rule convert_ref_clean)
  qed
  moreover note csr_blank(1) [OF out]
  ultimately show ?thesis using ns rel by blast
qed

theorem references_rewritten_witness:
  "is_legacy (JDict [(''swagger'', JStr ''2.0''),
      (''paths'', JDict [(''/pets'', JDict [(''get'', JDict
          [(''parameters'', JList [JDict [(''$ref'', JStr ''#/parameters/limit'')]]),
           (''responses'', JDict [(''200'', JDict [(''schema'',
                JDict [(''$ref'', JStr ''#/definitions/Pet'')])])])])])]),
      (''responses'', JDict [(''NotFound'', JDict [(''$ref'', JStr ''#/responses/Gone'')])])])
   \<and> convert_spec fmt_str (JDict [(''swagger'', JStr ''2.0''),
      (''paths'', JDict [(''/pets'', JDict [(''get'', JDict
          [(''parameters'', JList [JDict [(''$ref'', JStr ''#/parameters/limit'')]]),
           (''responses'', JDict [(''200'', JDict [(''schema'',
                JDict [(''$ref'', JStr ''#/definitions/Pet'')])])])])])]),
      (''responses'', JDict [(''NotFound'', JDict [(''$ref'', JStr ''#/responses/Gone'')])])])
     = Inr (JDict [(''openapi'', JStr ''3.0.0''),
      (''info'', JDict [(''title'', JStr ''API''), (''version'', JStr ''1.0.0'')]),
      (''components'', JDict [(''responses'',
          JDict [(''NotFound'', JDict [(''$ref'', JStr ''#/components/responses/Gone'')])])]),
      (''paths'', JDict [(''/pets'', JDict [(''get'', JDict
          [(''parameters'', JList [JDict [(''$ref'', JStr ''#/components/parameters/limit'')]]),
           (''responses'', JDict [(''200'', JDict [(''schema'',
                JDict [(''$ref'', JStr ''#/components/schemas/Pet'')])])])])])])])
   \<and> \<not> sublist ''#/responses/'' ''#/components/responses/Gone''
   \<and> \<not> sublist ''#/parameters/'' ''#/components/parameters/limit''
   \<and> \<not> sublist ''#/definitions/'' ''#/components/schemas/Pet''
   \<and> blank_refs (JDict [(''openapi'', JStr ''3.0.0''),
      (''info'', JDict [(''title'', JStr ''API''), (''version'', JStr ''1.0.0'')]),
      (''components'', JDict [(''responses'',
          JDict [(''NotFound'', JDict [(''$ref'', JStr ''#/components/responses/Gone'')])])]),
      (''paths'', JDict [(''/pets'', JDict [(''get'', JDict
          [(''parameters'', JList [JDict [(''$ref'', JStr ''#/components/parameters/limit'')]]),
           (''responses'', JDict [(''200'', JDict [(''schema'',
                JDict [(''$ref'', JStr ''#/components/schemas/Pet'')])])])])])])])
     = JDict [(''openapi'', JStr ''3.0.0''),
      (''info'', JDict [(''title'', JStr ''API''), (''version'', JStr ''1.0.0'')]),
      (''components'', JDict [(''responses'',
          JDict [(''NotFound'', JDict [(''$ref'', JNull)])])]),
      (''paths'', JDict [(''/pets'', JDict [(''get'', JDict
          [(''parameters'', JList [JDict [(''$ref'', JNull)]]),
           (''responses'', JDict [(''200'', JDict [(''schema'',
                JDict [(''$ref'', JNull)])])])])])])]"
proof -
  let ?d = "[(''swagger'', JStr ''2.0''),
      (''paths'', JDict [(''/pets'', JDict [(''get'', JDict
          [(''parameters'', JList [JDict [(''$ref'', JStr ''#/parameters/limit'')]]),
           (''responses'', JDict [(''200'', JDict [(''schema'',
                JDict [(''$ref'', JStr ''#/definitions/Pet'')])])])])])]),
      (''responses'', JDict [(''NotFound'', JDict [(''$ref'', JStr ''#/responses/Gone'')])])]"
  let ?out = "JDict [(''openapi'', JStr ''3.0.0''),
      (''info'', JDict [(''title'', JStr ''API''), (''version'', JStr ''1.0.0'')]),
      (''components'', JDict [(''responses'',
          JDict [(''NotFound'', JDict [(''$ref'', JStr ''#/components/responses/Gone'')])])]),
      (''paths'', JDict [(''/pets'', JDict [(''get'', JDict
          [(''parameters'', JList [JDict [(''$ref'', JStr ''#/components/parameters/limit'')]]),
           (''responses'', JDict [(''200'', JDict [(''schema'',
                JDict [(''$ref'', JStr ''#/components/schemas/Pet'')])])])])])])]"
  have l: "is_legacy (JDict ?d)" by (simp add: is_legacy_def)
  have c: "convert_spec fmt_str (JDict ?d) = Inr ?out" by code_simp
  have r: "ref_values ?out = [JStr ''#/components/responses/Gone'',
      JStr ''#/components/parameters/limit'', JStr ''#/components/schemas/Pet'']"
    by simp
  have ns: "build_spec fmt_str ?d = Inr [(''openapi'', JStr ''3.0.0''),
      (''info'', JDict [(''title'', JStr ''API''), (''version'', JStr ''1.0.0'')]),
      (''components'', JDict [(''responses'',
          JDict [(''NotFound'', JDict [(''$ref'', JStr ''#/responses/Gone'')])])]),
      (''paths'', JDict [(''/pets'', JDict [(''get'', JDict
          [(''parameters'', JList [JDict [(''$ref'', JStr ''#/parameters/limit'')]]),
           (''responses'', JDict [(''200'', JDict [(''schema'',
                JDict [(''$ref'', JStr ''#/definitions/Pet'')])])])])])])]"
    by code_simp
  from references_rewritten [OF l c] ns have
    a: "\<forall>v' \<in> set (ref_values ?out). \<forall>s. v' = JStr s \<longrightarrow>
           (\<forall>p \<in> set legacy_prefixes. \<not> sublist p s)"
    and b: "blank_refs ?out = blank_refs (JDict [(''openapi'', JStr ''3.0.0''),
      (''info'', JDict [(''title'', JStr ''API''), (''version'', JStr ''1.0.0'')]),
      (''components'', JDict [(''responses'',
          JDict [(''NotFound'', JDict [(''$ref'', JStr ''#/responses/Gone'')])])]),
      (''paths'', JDict [(''/pets'', JDict [(''get'', JDict
          [(''parameters'', JList [JDict [(''$ref'', JStr ''#/parameters/limit'')]]),
           (''responses'', JDict [(''200'', JDict [(''schema'',
                JDict [(''$ref'', JStr ''#/definitions/Pet'')])])])])])])])"
    by auto
  from a have "\<not> sublist ''#/responses/'' ''#/components/responses/Gone''
   \<and> \<not> sublist ''#/parameters/'' ''#/components/parameters/limit''
   \<and> \<not> sublist ''#/definitions/'' ''#/components/schemas/Pet''"
    unfolding r by (simp add: legacy_prefixes_def)
  moreover from b have "blank_refs ?out = JDict [(''openapi'', JStr ''3.0.0''),
      (''info'', JDict [(''title'', JStr ''API''), (''version'', JStr ''1.0.0'')]),
      (''components'', JDict [(''responses'',
          JDict [(''NotFound'', JDict [(''$ref'', JNull)])])]),
      (''paths'', JDict [(''/pets'', JDict [(''get'', JDict
          [(''parameters'', JList [JDict [(''$ref'', JNull)]]),
           (''responses'', JDict [(''200'', JDict [(''schema'',
                JDict [(''$ref'', JNull)])])])])])])]"
    by simp
  ultimately show ?thesis using l c by blast
qed

theorem legacy_prefix_remains_counterexample:
  "is_legacy (JDict [(''swagger'', JStr ''2.0''),
      (''info'', JDict [(''title'', JStr ''Pets''),
                        (''description'', JStr ''see #/definitions/Pet'')])])
   \<and> convert_spec fmt_str (JDict [(''swagger'', JStr ''2.0''),
      (''info'', JDict [(''title'', JStr ''Pets''),
                        (''description'', JStr ''see #/definitions/Pet'')])])
     = Inr (JDict [(''openapi'', JStr ''3.0.0''),
      (''info'', JDict [(''title'', JStr ''Pets''),
                        (''description'', JStr ''see #/definitions/Pet'')])])
   \<and> ''see #/definitions/Pet'' \<in> set (strings_of (JDict [(''openapi'', JStr ''3.0.0''),
      (''info'', JDict [(''title'', JStr ''Pets''),
                        (''description'', JStr ''see #/definitions/Pet'')])]))
   \<and> sublist ''#/definitions/'' ''see #/definitions/Pet''"
proof -
  have "convert_spec fmt_str (JDict [(''swagger'', JStr ''2.0''),
      (''info'', JDict [(''title'', JStr ''Pets''),
                        (''description'', JStr ''see #/definitions/Pet'')])])
     = Inr (JDict [(''openapi'', JStr ''3.0.0''),
      (''info'', JDict [(''title'', JStr ''Pets''),
                        (''description'', JStr ''see #/definitions/Pet'')])])"
    by code_simp
  moreover have "sublist ''#/definitions/'' ''see #/definitions/Pet''"
    by (simp add: sublist_Cons_right)
  ultimately show ?thesis by (simp add: is_legacy_def)
qed

section \<open>Components\<close>

text \<open>
  C5 (as amended). For a legacy document whose conversion returns, the output has a
  \<^verbatim>\<open>components\<close> key exactly when one of the four source keys is in the input. Its
  sub-keys are then, in the order schemas, parameters, responses, securitySchemes, those
  whose source key is in the input, and each holds the input's value after the rewriting
  of its references: the input's value itself when \<^verbatim>\<open>convert_ref\<close> changes none of them.
\<close>

theorem components_assembly:
  assumes "is_legacy (JDict d)" and "convert_spec fmt (JDict d) = Inr out"
  shows "\<exists>od. out = JDict od
     \<and> (has_key od ''components'' \<longleftrightarrow> (\<exists>(k, k') \<in> set component_keys. has_key d k))
     \<and> (has_key od ''components'' \<longrightarrow>
          (\<exists>c. map_of od ''components'' = Some (JDict c)
             \<and> map fst c = map snd (filter (\<lambda>(k, k'). has_key d k) component_keys)
             \<and> (\<forall>(k, k') \<in> set component_keys. \<forall>v. map_of d k = Some v \<longrightarrow>
                   (\<exists>v'. convert_schema_refs v = Inr v' \<and> map_of c k' = Some v')
                   \<and> ((\<forall>r \<in> set (ref_values v). convert_ref r = Inr r) \<longrightarrow>
                        map_of c k' = Some v))))"
proof -
  from assms obtain ns od where ns: "build_spec fmt d = Inr ns"
    and od: "csr_values ns = Inr od" and out: "out = JDict od"
    and keys: "map fst od = map fst ns"
    by (rule convert_spec_out)
  let ?comps = "build_components d"
  have look: "map_of ns ''components'' = (if ?comps \<noteq> [] then Some (JDict ?comps) else None)"
    using build_spec_lookup [OF ns, of "''components''"] by simp
  have "has_key ns ''components'' \<longleftrightarrow> ?comps \<noteq> []"
    unfolding has_key_map_of look by simp
  then have 1: "has_key od ''components'' \<longleftrightarrow> (\<exists>(k, k') \<in> set component_keys. has_key d k)"
    using has_key_keys [OF keys, of "''components''"]
    by (simp only: build_components_empty)
  have 2: "\<exists>c. map_of od ''components'' = Some (JDict c)
             \<and> map fst c = map snd (filter (\<lambda>(k, k'). has_key d k) component_keys)
             \<and> (\<forall>(k, k') \<in> set component_keys. \<forall>v. map_of d k = Some v \<longrightarrow>
                   (\<exists>v'. convert_schema_refs v = Inr v' \<and> map_of c k' = Some v')
                   \<and> ((\<forall>r \<in> set (ref_values v). convert_ref r = Inr r) \<longrightarrow>
                        map_of c k' = Some v))"
    if "has_key od ''components''"
  proof -
    from that 1 look have "map_of ns ''components'' = Some (JDict ?comps)"
      by (simp add: build_components_empty)
    from csr_values_map_of [OF od this] obtain v' where
      v': "map_of od ''components'' = Some v'" "convert_schema_refs (JDict ?comps) = Inr v'"
      by blast
    from v'(2) obtain c where c: "csr_values ?comps = Inr c" "v' = JDict c"
      by (auto simp: build_components_no_ref split: sum.splits)
    have "map fst c = map snd (filter (\<lambda>(k, k'). has_key d k) component_keys)"
      using csr_values_keys [OF c(1)] by (simp add: build_components_keys)
    moreover have "(\<exists>v'. convert_schema_refs v = Inr v' \<and> map_of c k' = Some v')
         \<and> ((\<forall>r \<in> set (ref_values v). convert_ref r = Inr r) \<longrightarrow> map_of c k' = Some v)"
      if "(k, k') \<in> set component_keys" "map_of d k = Some v" for k k' v
    proof -
      from that have "map_of ?comps k' = Some v" by (simp add: build_components_lookup)
      from csr_values_map_of [OF c(1) this] obtain w where
        w: "map_of c k' = Some w" "convert_schema_refs v = Inr w" by blast
      then show ?thesis using csr_unchanged(1) [of v] by auto
    qed
    ultimately show ?thesis using v'(1) c(2) by blast
  qed
  from out 1 2 show ?thesis by blast
qed

theorem components_assembly_witness:
  "is_legacy (JDict [(''swagger'', JStr ''2.0''),
      (''securityDefinitions'', JDict [(''key'', JDict [(''type'', JStr ''apiKey'')])]),
      (''definitions'', JDict [(''Pet'', JDict [(''type'', JStr ''object'')])])])
   \<and> convert_spec fmt_str (JDict [(''swagger'', JStr ''2.0''),
      (''securityDefinitions'', JDict [(''key'', JDict [(''type'', JStr ''apiKey'')])]),
      (''definitions'', JDict [(''Pet'', JDict [(''type'', JStr ''object'')])])])
     = Inr (JDict [(''openapi'', JStr ''3.0.0''),
      (''info'', JDict [(''title'', JStr ''API''), (''version'', JStr ''1.0.0'')]),
      (''components'', JDict
         [(''schemas'', JDict [(''Pet'', JDict [(''type'', JStr ''object'')])]),
          (''securitySchemes'', JDict [(''key'', JDict [(''type'', JStr ''apiKey'')])])])])
   \<and> has_key [(''openapi'', JStr ''3.0.0''),
      (''info'', JDict [(''title'', JStr ''API''), (''version'', JStr ''1.0.0'')]),
      (''components'', JDict
         [(''schemas'', JDict [(''Pet'', JDict [(''type'', JStr ''object'')])]),
          (''securitySchemes'', JDict [(''key'', JDict [(''type'', JStr ''apiKey'')])])])]
      ''components''
   \<and> map fst
        [(''schemas'', JDict [(''Pet'', JDict [(''type'', JStr ''object'')])]),
         (''securitySchemes'', JDict [(''key'', JDict [(''type'', JStr ''apiKey'')])])]
     = map snd (filter (\<lambda>(k, k'). has_key [(''swagger'', JStr ''2.0''),
      (''securityDefinitions'', JDict [(''key'', JDict [(''type'', JStr ''apiKey'')])]),
      (''definitions'', JDict [(''Pet'', JDict [(''type'', JStr ''object'')])])] k)
        component_keys)"
proof -
  let ?d = "[(''swagger'', JStr ''2.0''),
      (''securityDefinitions'', JDict [(''key'', JDict [(''type'', JStr ''apiKey'')])]),
      (''definitions'', JDict [(''Pet'', JDict [(''type'', JStr ''object'')])])]"
  let ?c = "[(''schemas'', JDict [(''Pet'', JDict [(''type'', JStr ''object'')])]),
          (''securitySchemes'', JDict [(''key'', JDict [(''type'', JStr ''apiKey'')])])]"
  let ?od = "[(''openapi'', JStr ''3.0.0''),
      (''info'', JDict [(''title'', JStr ''API''), (''version'', JStr ''1.0.0'')]),
      (''components'', JDict ?c)]"
  have l: "is_legacy (JDict ?d)" by (simp add: is_legacy_def)
  have c: "convert_spec fmt_str (JDict ?d) = Inr (JDict ?od)" by code_simp
  from components_assembly [OF l c] obtain c' where
    "has_key ?od ''components''"
    "map_of ?od ''components'' = Some (JDict c')"
    "map fst c' = map snd (filter (\<lambda>(k, k'). has_key ?d k) component_keys)"
    by (auto simp: component_keys_def)
  with l c show ?thesis by simp
qed

theorem components_verbatim_counterexample:
  "is_legacy (JDict [(''swagger'', JStr ''2.0''),
      (''definitions'', JDict [(''Pet'', JDict [(''$ref'', JStr ''#/definitions/Animal'')])])])
   \<and> map_of [(''swagger'', JStr ''2.0''),
      (''definitions'', JDict [(''Pet'', JDict [(''$ref'', JStr ''#/definitions/Animal'')])])]
      ''definitions''
     = Some (JDict [(''Pet'', JDict [(''$ref'', JStr ''#/definitions/Animal'')])])
   \<and> convert_spec fmt_str (JDict [(''swagger'', JStr ''2.0''),
      (''definitions'', JDict [(''Pet'', JDict [(''$ref'', JStr ''#/definitions/Animal'')])])])
     = Inr (JDict [(''openapi'', JStr ''3.0.0''),
      (''info'', JDict [(''title'', JStr ''API''), (''version'', JStr ''1.0.0'')]),
      (''components'', JDict [(''schemas'',
         JDict [(''Pet'', JDict [(''$ref'', JStr ''#/components/schemas/Animal'')])])])])
   \<and> JDict [(''Pet'', JDict [(''$ref'', JStr ''#/components/schemas/Animal'')])]
     \<noteq> JDict [(''Pet'', JDict [(''$ref'', JStr ''#/definitions/Animal'')])]"
proof -
  have "convert_spec fmt_str (JDict [(''swagger'', JStr ''2.0''),
      (''definitions'', JDict [(''Pet'', JDict [(''$ref'', JStr ''#/definitions/Animal'')])])])
     = Inr (JDict [(''openapi'', JStr ''3.0.0''),
      (''info'', JDict [(''title'', JStr ''API''), (''version'', JStr ''1.0.0'')]),
      (''components'', JDict [(''schemas'',
         JDict [(''Pet'', JDict [(''$ref'', JStr ''#/components/schemas/Animal'')])])])])"
    by code_simp
  then show ?thesis by (simp add: is_legacy_def)
qed

section \<open>Extension fields and dropped keys\<close>

text \<open>
  C6 (as amended). For a legacy document (its keys distinct, as the keys of a dict are)
  whose conversion returns, the keys of the output are, in this order: \<^verbatim>\<open>openapi\<close>,
  \<^verbatim>\<open>info\<close>; those of \<^verbatim>\<open>externalDocs\<close>, \<^verbatim>\<open>tags\<close>, \<^verbatim>\<open>security\<close> that the input has;
  \<^verbatim>\<open>servers\<close> and \<^verbatim>\<open>components\<close> when they are synthesized; \<^verbatim>\<open>paths\<close> when the input
  has it; then every input key that starts with \<^verbatim>\<open>x-\<close>, in the input's order. Each
  extension key holds the input's value after the rewriting of its references (the
  input's value itself when \<^verbatim>\<open>convert_ref\<close> changes none of them). No other key is in
  the output: in particular none of \<^verbatim>\<open>swagger\<close>, \<^verbatim>\<open>host\<close>, \<^verbatim>\<open>basePath\<close>, \<^verbatim>\<open>schemes\<close>,
  \<^verbatim>\<open>definitions\<close>, \<^verbatim>\<open>parameters\<close>, \<^verbatim>\<open>responses\<close>, \<^verbatim>\<open>securityDefinitions\<close>.
\<close>

theorem extensions_and_dropped_keys:
  assumes "is_legacy (JDict d)" and "convert_spec fmt (JDict d) = Inr out"
    and "distinct (map fst d)"
  shows "\<exists>od. out = JDict od
     \<and> map fst od = [''openapi'', ''info'']
           @ filter (has_key d) [''externalDocs'', ''tags'', ''security'']
           @ filter (has_key od) [''servers'', ''components'']
           @ filter (has_key d) [''paths'']
           @ filter (prefix ''x-'') (map fst d)
     \<and> (\<forall>k v. prefix ''x-'' k \<and> map_of d k = Some v \<longrightarrow>
           (\<exists>v'. convert_schema_refs v = Inr v' \<and> map_of od k = Some v')
           \<and> ((\<forall>r \<in> set (ref_values v). convert_ref r = Inr r) \<longrightarrow> map_of od k = Some v))
     \<and> (\<forall>k. has_key od k \<longrightarrow> prefix ''x-'' k \<or>
           k \<in> set [''openapi'', ''info'', ''externalDocs'', ''tags'', ''security'',
                     ''servers'', ''components'', ''paths''])
     \<and> (\<forall>k \<in> set [''swagger'', ''host'', ''basePath'', ''schemes'', ''definitions'',
                     ''parameters'', ''responses'', ''securityDefinitions'']. \<not> has_key od k)"
proof -
  from assms(1,2) obtain ns od where ns: "build_spec fmt d = Inr ns"
    and od: "csr_values ns = Inr od" and out: "out = JDict od"
    and keys: "map fst od = map fst ns"
    by (rule convert_spec_out)
  have hk: "has_key od k = has_key ns k" for k
    using keys by (rule has_key_keys)
  have 1: "map fst od = [''openapi'', ''info'']
           @ filter (has_key d) [''externalDocs'', ''tags'', ''security'']
           @ filter (has_key od) [''servers'', ''components'']
           @ filter (has_key d) [''paths'']
           @ filter (prefix ''x-'') (map fst d)"
    using build_spec_keys [OF ns assms(3)] keys by (simp add: hk)
  have 2: "(\<exists>v'. convert_schema_refs v = Inr v' \<and> map_of od k = Some v')
           \<and> ((\<forall>r \<in> set (ref_values v). convert_ref r = Inr r) \<longrightarrow> map_of od k = Some v)"
    if "prefix ''x-'' k" "map_of d k = Some v" for k v
  proof -
    from ns obtain t where "ns = copy_extensions d t"
      by (rule build_spec_shape)
    with that assms(3) have "map_of ns k = Some v"
      by (simp add: copy_extensions_ext has_key_map_of)
    from csr_values_map_of [OF od this] obtain w where
      "map_of od k = Some w" "convert_schema_refs v = Inr w" by blast
    then show ?thesis using csr_unchanged(1) [of v] by auto
  qed
  have 3: "prefix ''x-'' k \<or>
           k \<in> set [''openapi'', ''info'', ''externalDocs'', ''tags'', ''security'',
                     ''servers'', ''components'', ''paths'']" if "has_key od k" for k
  proof -
    from that have "k \<in> set (map fst od)" by (simp only: has_key_def)
    then show ?thesis unfolding 1 by (auto split: if_splits)
  qed
  have 4: "\<forall>k \<in> set [''swagger'', ''host'', ''basePath'', ''schemes'', ''definitions'',
                     ''parameters'', ''responses'', ''securityDefinitions'']. \<not> has_key od k"
    using 3 by fastforce
  from out 1 2 3 4 show ?thesis by blast
qed

theorem extensions_and_dropped_keys_witness:
  "is_legacy (JDict [(''swagger'', JStr ''2.0''), (''x-custom'', JDict [(''a'', JInt 1)]),
                     (''definitions'', JDict []), (''vendor'', JBool True),
                     (''x-other'', JStr ''kept'')])
   \<and> distinct (map fst [(''swagger'', JStr ''2.0''), (''x-custom'', JDict [(''a'', JInt 1)]),
                     (''definitions'', JDict []), (''vendor'', JBool True),
                     (''x-other'', JStr ''kept'')])
   \<and> convert_spec fmt_str
        (JDict [(''swagger'', JStr ''2.0''), (''x-custom'', JDict [(''a'', JInt 1)]),
                (''definitions'', JDict []), (''vendor'', JBool True),
                (''x-other'', JStr ''kept'')])
     = Inr (JDict [(''openapi'', JStr ''3.0.0''),
                   (''info'', JDict [(''title'', JStr ''API''), (''version'', JStr ''1.0.0'')]),
                   (''components'', JDict [(''schemas'', JDict [])]),
                   (''x-custom'', JDict [(''a'', JInt 1)]),
                   (''x-other'', JStr ''kept'')])
   \<and> map fst [(''openapi'', JStr ''3.0.0''),
                   (''info'', JDict [(''title'', JStr ''API''), (''version'', JStr ''1.0.0'')]),
                   (''components'', JDict [(''schemas'', JDict [])]),
                   (''x-custom'', JDict [(''a'', JInt 1)]),
                   (''x-other'', JStr ''kept'')]
     = [''openapi'', ''info'', ''components'', ''x-custom'', ''x-other'']
   \<and> map_of [(''openapi'', JStr ''3.0.0''),
                   (''info'', JDict [(''title'', JStr ''API''), (''version'', JStr ''1.0.0'')]),
                   (''components'', JDict [(''schemas'', JDict [])]),
                   (''x-custom'', JDict [(''a'', JInt 1)]),
                   (''x-other'', JStr ''kept'')] ''x-custom''
     = Some (JDict [(''a'', JInt 1)])
   \<and> \<not> has_key [(''openapi'', JStr ''3.0.0''),
                   (''info'', JDict [(''title'', JStr ''API''), (''version'', JStr ''1.0.0'')]),
                   (''components'', JDict [(''schemas'', JDict [])]),
                   (''x-custom'', JDict [(''a'', JInt 1)]),
                   (''x-other'', JStr ''kept'')] ''definitions''
   \<and> \<not> has_key [(''openapi'', JStr ''3.0.0''),
                   (''info'', JDict [(''title'', JStr ''API''), (''version'', JStr ''1.0.0'')]),
                   (''components'', JDict [(''schemas'', JDict [])]),
                   (''x-custom'', JDict [(''a'', JInt 1)]),
                   (''x-other'', JStr ''kept'')] ''vendor''"
proof -
  let ?d = "[(''swagger'', JStr ''2.0''), (''x-custom'', JDict [(''a'', JInt 1)]),
             (''definitions'', JDict []), (''vendor'', JBool True),
             (''x-other'', JStr ''kept'')]"
  let ?od = "[(''openapi'', JStr ''3.0.0''),
              (''info'', JDict [(''title'', JStr ''API''), (''version'', JStr ''1.0.0'')]),
              (''components'', JDict [(''schemas'', JDict [])]),
              (''x-custom'', JDict [(''a'', JInt 1)]),
              (''x-other'', JStr ''kept'')]"
  have l: "is_legacy (JDict ?d)" by (simp add: is_legacy_def)
  have dist: "distinct (map fst ?d)" by simp
  have c: "convert_spec fmt_str (JDict ?d) = Inr (JDict ?od)" by code_simp
  from extensions_and_dropped_keys [OF l c dist]
  have k: "map fst ?od = [''openapi'', ''info'']
           @ filter (has_key ?d) [''externalDocs'', ''tags'', ''security'']
           @ filter (has_key ?od) [''servers'', ''components'']
           @ filter (has_key ?d) [''paths'']
           @ filter (prefix ''x-'') (map fst ?d)"
    and x: "\<forall>r \<in> set (ref_values (JDict [(''a'', JInt 1)])). convert_ref r = Inr r
       \<Longrightarrow> map_of ?od ''x-custom'' = Some (JDict [(''a'', JInt 1)])"
    and a: "\<not> has_key ?od ''definitions''"
    by auto
  from x have "map_of ?od ''x-custom'' = Some (JDict [(''a'', JInt 1)])" by simp
  moreover from k have "map fst ?od = [''openapi'', ''info'', ''components'', ''x-custom'', ''x-other'']"
    by simp
  ultimately show ?thesis using l dist c a by simp
qed

theorem extensions_and_dropped_keys_counterexample:
  "is_legacy (JDict [(''swagger'', JStr ''2.0''), (''host'', JStr ''h''), (''servers'', JInt 1),
                     (''x-a'', JDict [(''$ref'', JStr ''#/definitions/X'')])])
   \<and> map_of [(''swagger'', JStr ''2.0''), (''host'', JStr ''h''), (''servers'', JInt 1),
              (''x-a'', JDict [(''$ref'', JStr ''#/definitions/X'')])] ''x-a''
     = Some (JDict [(''$ref'', JStr ''#/definitions/X'')])
   \<and> has_key [(''swagger'', JStr ''2.0''), (''host'', JStr ''h''), (''servers'', JInt 1),
              (''x-a'', JDict [(''$ref'', JStr ''#/definitions/X'')])] ''servers''
   \<and> convert_spec fmt_str
        (JDict [(''swagger'', JStr ''2.0''), (''host'', JStr ''h''), (''servers'', JInt 1),
                (''x-a'', JDict [(''$ref'', JStr ''#/definitions/X'')])])
     = Inr (JDict [(''openapi'', JStr ''3.0.0''),
                   (''info'', JDict [(''title'', JStr ''API''), (''version'', JStr ''1.0.0'')]),
                   (''servers'', JList [JDict [(''url'', JStr ''http://h'')]]),
                   (''x-a'', JDict [(''$ref'', JStr ''#/components/schemas/X'')])])
   \<and> map_of [(''openapi'', JStr ''3.0.0''),
              (''info'', JDict [(''title'', JStr ''API''), (''version'', JStr ''1.0.0'')]),
              (''servers'', JList [JDict [(''url'', JStr ''http://h'')]]),
              (''x-a'', JDict [(''$ref'', JStr ''#/components/schemas/X'')])] ''x-a''
     \<noteq> Some (JDict [(''$ref'', JStr ''#/definitions/X'')])
   \<and> has_key [(''openapi'', JStr ''3.0.0''),
              (''info'', JDict [(''title'', JStr ''API''), (''version'', JStr ''1.0.0'')]),
              (''servers'', JList [JDict [(''url'', JStr ''http://h'')]]),
              (''x-a'', JDict [(''$ref'', JStr ''#/components/schemas/X'')])] ''servers''"
proof -
  have "convert_spec fmt_str
        (JDict [(''swagger'', JStr ''2.0''), (''host'', JStr ''h''), (''servers'', JInt 1),
                (''x-a'', JDict [(''$ref'', JStr ''#/definitions/X'')])])
     = Inr (JDict [(''openapi'', JStr ''3.0.0''),
                   (''info'', JDict [(''title'', JStr ''API''), (''version'', JStr ''1.0.0'')]),
                   (''servers'', JList [JDict [(''url'', JStr ''http://h'')]]),
                   (''x-a'', JDict [(''$ref'', JStr ''#/components/schemas/X'')])])"
    by code_simp
  then show ?thesis by (simp add: is_legacy_def)
qed

section \<open>Failures of single files\<close>



section \<open>References that are not strings\<close>



end
